theory Spec2Isabelle
  imports Main "HOL-Library.Sublist" "HOL-Library.Word"
begin

unbundle bit_operations_syntax

section \<open>C strings\<close>

text \<open>
  The program is \<^verbatim>\<open>src/init/init.c\<close>, a minimal init process. A \<^verbatim>\<open>char *\<close> into a
  NUL-terminated buffer is modelled by the bytes it points at: advancing the pointer
  drops bytes from the front, and the difference of two pointers into the same string
  is the difference of the lengths of what they point at.
\<close>

abbreviation NUL :: char where "NUL \<equiv> CHR 0x00"
abbreviation TAB :: char where "TAB \<equiv> CHR 0x09"
abbreviation NEWLINE :: char where "NEWLINE \<equiv> CHR 0x0A"
abbreviation SPACE :: char where "SPACE \<equiv> CHR 0x20"
abbreviation DQUOTE :: char where "DQUOTE \<equiv> CHR 0x22"
abbreviation SQUOTE :: char where "SQUOTE \<equiv> CHR 0x27"
abbreviation COMMA :: char where "COMMA \<equiv> CHR 0x2C"

text \<open>The string a buffer holds: its bytes up to the first NUL.\<close>

definition c_str :: "string \<Rightarrow> string" where
  "c_str bytes = takeWhile (\<lambda>c. c \<noteq> NUL) bytes"

text \<open>\<^verbatim>\<open>*p\<close> on a pointer into a C string: the terminating NUL at its end.\<close>

fun peek :: "string \<Rightarrow> char" where
  "peek [] = NUL"
| "peek (c # cs) = c"

text \<open>\<^verbatim>\<open>strstr(haystack, needle)\<close>: the suffix at the first occurrence, or NULL.\<close>

fun strstr :: "string \<Rightarrow> string \<Rightarrow> string option" where
  "strstr [] needle = (if needle = [] then Some [] else None)"
| "strstr (c # cs) needle =
     (if prefix needle (c # cs) then Some (c # cs) else strstr cs needle)"

text \<open>\<^verbatim>\<open>strchr(s, ch)\<close> for a character other than NUL.\<close>

fun strchr :: "string \<Rightarrow> char \<Rightarrow> string option" where
  "strchr [] ch = None"
| "strchr (c # cs) ch = (if c = ch then Some (c # cs) else strchr cs ch)"

section \<open>Boot parameter reader\<close>

definition ENTRYPOINT_KEY :: string where
  "ENTRYPOINT_KEY = ''kerf.entrypoint=''"

definition CONSOLE_KEY :: string where
  "CONSOLE_KEY = ''console=''"

definition MAX_CMDLINE_LEN :: nat where
  "MAX_CMDLINE_LEN = 4096"

definition MAX_ENTRYPOINT_LEN :: nat where
  "MAX_ENTRYPOINT_LEN = 4096"

definition MAX_CONSOLE_LEN :: nat where
  "MAX_CONSOLE_LEN = 64"

definition MAX_ARGS :: int where
  "MAX_ARGS = 64"

text \<open>
  What \<^verbatim>\<open>/proc/cmdline\<close> gives to one \<^verbatim>\<open>open\<close> and \<^verbatim>\<open>read\<close>: the open fails, the
  read fails, or the file supplies bytes.
\<close>

datatype cmdline_file = OpenFails | ReadFails | ReadOk string

text \<open>
  \<^verbatim>\<open>read(fd, cmdline, sizeof(cmdline) - 1)\<close> followed by \<^verbatim>\<open>cmdline[n] = '\0'\<close>:
  at most 4095 bytes arrive, and the buffer is then used as a C string.
\<close>

definition read_cmdline :: "string \<Rightarrow> string" where
  "read_cmdline bytes = c_str (take (MAX_CMDLINE_LEN - 1) bytes)"

text \<open>
  Every failure of \<^verbatim>\<open>read_entrypoint\<close> returns -1; the failures differ in the line
  they log, which the error value records.
\<close>

datatype ep_error = OpenError | ReadError | NotFound | Malformed | Empty | TooLong

text \<open>\<^verbatim>\<open>while (*end && *end != ' ' && *end != '\n') end++;\<close>\<close>

fun unquoted_end :: "string \<Rightarrow> string" where
  "unquoted_end [] = []"
| "unquoted_end (c # cs) =
     (if c \<noteq> SPACE \<and> c \<noteq> NEWLINE then unquoted_end cs else c # cs)"

text \<open>
  The tail of \<^verbatim>\<open>read_entrypoint\<close>, from \<^verbatim>\<open>len = end - start\<close> on: the two length
  checks, then \<^verbatim>\<open>memcpy\<close> and the terminator.
\<close>

definition copy_value :: "string \<Rightarrow> string \<Rightarrow> nat \<Rightarrow> ep_error + string" where
  "copy_value start end bufsize =
     (let len = length start - length end in
      if len = 0 then Inl Empty
      else if len \<ge> bufsize then Inl TooLong
      else Inr (take len start))"

definition read_entrypoint :: "cmdline_file \<Rightarrow> nat \<Rightarrow> ep_error + string" where
  "read_entrypoint file bufsize =
     (case file of
        OpenFails \<Rightarrow> Inl OpenError
      | ReadFails \<Rightarrow> Inl ReadError
      | ReadOk bytes \<Rightarrow>
          (case strstr (read_cmdline bytes) ENTRYPOINT_KEY of
             None \<Rightarrow> Inl NotFound
           | Some found \<Rightarrow>
               let start = drop (length ENTRYPOINT_KEY) found in
               if peek start = DQUOTE then
                 let start = tl start in
                 (case strchr start DQUOTE of
                    None \<Rightarrow> Inl Malformed
                  | Some end \<Rightarrow> copy_value start end bufsize)
               else copy_value start (unquoted_end start) bufsize))"

section \<open>Command tokenizer\<close>

text \<open>
  \<^verbatim>\<open>parse_args\<close> edits its buffer in place while the pointer \<^verbatim>\<open>p\<close> walks through
  it. The buffer is kept in two parts: \<open>front\<close>, the bytes below \<^verbatim>\<open>p\<close> (so the
  offset of \<^verbatim>\<open>p\<close> is \<open>length front\<close>), and \<open>rest\<close>, the C string at \<^verbatim>\<open>p\<close>.
  Then \<^verbatim>\<open>p++\<close> moves the first byte of \<open>rest\<close> to the end of \<open>front\<close>;
  \<^verbatim>\<open>memmove(p, p + 1, strlen(p))\<close> copies the tail of the string and its terminator
  one byte down, which deletes the first byte of \<open>rest\<close>; and \<^verbatim>\<open>*p++ = '\0'\<close>
  puts a NUL at the end of \<open>front\<close> in place of the first byte of \<open>rest\<close>.
\<close>

text \<open>\<^verbatim>\<open>while (*p == ' ' || *p == '\t') p++;\<close>\<close>

fun skip_ws :: "string \<Rightarrow> string \<Rightarrow> string \<times> string" where
  "skip_ws front [] = (front, [])"
| "skip_ws front (c # cs) =
     (if c = SPACE \<or> c = TAB then skip_ws (front @ [c]) cs else (front, c # cs))"

text \<open>The inner loop \<^verbatim>\<open>while (*p) { ... }\<close> that finds the end of one argument.\<close>

fun scan_arg :: "bool \<Rightarrow> char \<Rightarrow> string \<Rightarrow> string \<Rightarrow> bool \<times> char \<times> string \<times> string" where
  "scan_arg in_quote quote_char front [] = (in_quote, quote_char, front, [])"
| "scan_arg in_quote quote_char front (c # cs) =
     (if \<not> in_quote then
        if c = DQUOTE \<or> c = SQUOTE then scan_arg True c front cs
        else if c = SPACE \<or> c = TAB then (in_quote, quote_char, front @ [NUL], cs)
        else scan_arg in_quote quote_char (front @ [c]) cs
      else
        if c = quote_char then scan_arg False quote_char front cs
        else scan_arg in_quote quote_char (front @ [c]) cs)"

lemma skip_ws_length: "skip_ws front rest = (front1, rest1) \<Longrightarrow> length rest1 \<le> length rest"
  by (induction front rest rule: skip_ws.induct) (auto split: if_splits)

lemma scan_arg_length:
  "scan_arg in_quote quote_char front rest = (in_quote2, quote_char2, front2, rest2)
   \<Longrightarrow> length rest2 \<le> length rest"
  by (induction in_quote quote_char front rest rule: scan_arg.induct)
    (auto split: if_splits)

lemma scan_arg_shrinks:
  assumes "scan_arg in_quote quote_char front rest = (in_quote2, quote_char2, front2, rest2)"
    and "rest \<noteq> []"
  shows "length rest2 < length rest"
proof -
  from assms(2) obtain c cs where rest: "rest = c # cs"
    by (cases rest) auto
  have "length rest2 \<le> length cs"
    using assms(1) unfolding rest
    by (auto split: if_splits dest: scan_arg_length)
  then show ?thesis
    by (simp add: rest)
qed

text \<open>
  The argument vector is the memory at \<^verbatim>\<open>argv\<close>: slot \<open>i\<close> holds NULL (\<open>None\<close>) or
  a pointer into the buffer, as its offset.
\<close>

type_synonym argv = "nat \<Rightarrow> nat option"

text \<open>
  The outer loop \<^verbatim>\<open>while (*p && argc < max_args - 1)\<close>. \<^verbatim>\<open>max_args\<close> is a C
  \<^verbatim>\<open>int\<close>; \<^verbatim>\<open>argc\<close> counts up from 0 and is bounded by the length of the buffer.
\<close>

function parse_loop ::
  "int \<Rightarrow> nat \<Rightarrow> argv \<Rightarrow> bool \<Rightarrow> char \<Rightarrow> string \<Rightarrow> string \<Rightarrow> nat \<times> argv \<times> string \<times> string" where
  "parse_loop max_args argc argv in_quote quote_char front rest =
     (if rest \<noteq> [] \<and> int argc < max_args - 1 then
        (case skip_ws front rest of (front1, rest1) \<Rightarrow>
           if rest1 = [] then (argc, argv, front1, rest1)
           else
             (case scan_arg in_quote quote_char front1 rest1 of
                (in_quote2, quote_char2, front2, rest2) \<Rightarrow>
                  parse_loop max_args (argc + 1) (argv(argc := Some (length front1)))
                    in_quote2 quote_char2 front2 rest2))
      else (argc, argv, front, rest))"
  by pat_completeness auto
termination
  apply (relation "measure (\<lambda>(max_args, argc, argv, in_quote, quote_char, front, rest). length rest)")
   apply simp
  apply clarsimp
  subgoal for max_args argc in_quote quote_char front rest front1 rest1 in_quote2 quote_char2 front2 rest2
    using skip_ws_length [of front rest front1 rest1]
      scan_arg_shrinks [of in_quote quote_char front1 rest1 in_quote2 quote_char2 front2 rest2]
    by (cases "scan_arg in_quote quote_char front1 rest1") auto
  done

declare parse_loop.simps [simp del]

text \<open>
  What \<^verbatim>\<open>parse_args\<close> leaves behind: the returned count, the edited buffer and the
  argument vector.
\<close>

record parse_result =
  ret :: int
  buf :: string
  argv_out :: argv

text \<open>
  \<^verbatim>\<open>parse_args(cmdline, argv, max_args)\<close>. On entry the buffer holds the C string
  \<open>c_str cmdline\<close>; on return it holds the bytes passed over, the unread rest and the
  terminator of the string. The last statement ahead of the return stores NULL in
  \<^verbatim>\<open>argv[argc]\<close>.
\<close>

definition parse_args :: "string \<Rightarrow> argv \<Rightarrow> int \<Rightarrow> parse_result" where
  "parse_args cmdline argv max_args =
     (case parse_loop max_args 0 argv False NUL [] (c_str cmdline) of
        (argc, argv', front, rest) \<Rightarrow>
          \<lparr>ret = int argc, buf = front @ rest @ [NUL], argv_out = argv'(argc := None)\<rparr>)"

text \<open>The C string a pointer into the buffer denotes, and the strings of the first
  \<open>ret\<close> slots of the argument vector (\<open>None\<close> for a NULL slot).\<close>

definition str_at :: "string \<Rightarrow> nat \<Rightarrow> string" where
  "str_at buffer p = c_str (drop p buffer)"

definition args_of :: "parse_result \<Rightarrow> string option list" where
  "args_of r = map (\<lambda>i. map_option (str_at (buf r)) (argv_out r i)) [0..<nat (ret r)]"

section \<open>Filesystem bootstrap\<close>

text \<open>
  A system call that returns 0, or returns -1 and sets \<^verbatim>\<open>errno\<close>. The kernel is a
  parameter of the model: it answers each \<^verbatim>\<open>mount\<close> and \<^verbatim>\<open>mkdir\<close> call.
\<close>

datatype sysres = Ok | Err int

definition EBUSY :: int where "EBUSY = 16"
definition EEXIST :: int where "EEXIST = 17"

definition MS_NOSUID :: "64 word" where "MS_NOSUID = 2"
definition MS_NODEV :: "64 word" where "MS_NODEV = 4"
definition MS_NOEXEC :: "64 word" where "MS_NOEXEC = 8"

type_synonym mount_sys = "string \<Rightarrow> string \<Rightarrow> string \<Rightarrow> 64 word \<Rightarrow> sysres"
type_synonym mkdir_sys = "string \<Rightarrow> nat \<Rightarrow> sysres"

definition do_mount :: "mount_sys \<Rightarrow> string \<Rightarrow> string \<Rightarrow> string \<Rightarrow> 64 word \<Rightarrow> int" where
  "do_mount mount source target fstype flags =
     (case mount source target fstype flags of
        Err errno \<Rightarrow> if errno \<noteq> EBUSY then -1 else 0
      | Ok \<Rightarrow> 0)"

definition do_mkdir :: "mkdir_sys \<Rightarrow> string \<Rightarrow> nat \<Rightarrow> int" where
  "do_mkdir mkdir path mode =
     (case mkdir path mode of
        Err errno \<Rightarrow> if errno \<noteq> EEXIST then -1 else 0
      | Ok \<Rightarrow> 0)"

definition mount_filesystems :: "mount_sys \<Rightarrow> mkdir_sys \<Rightarrow> int" where
  "mount_filesystems mount mkdir =
     (if do_mount mount ''proc'' ''/proc'' ''proc'' (MS_NOSUID OR MS_NODEV OR MS_NOEXEC) < 0
      then -1
      else if do_mount mount ''sysfs'' ''/sys'' ''sysfs'' (MS_NOSUID OR MS_NODEV OR MS_NOEXEC) < 0
      then -1
      else if do_mount mount ''devtmpfs'' ''/dev'' ''devtmpfs'' MS_NOSUID < 0
      then -1
      else if do_mkdir mkdir ''/dev/pts'' 493 < 0
      then -1
      else if do_mount mount ''devpts'' ''/dev/pts'' ''devpts'' (MS_NOSUID OR MS_NOEXEC) < 0
      then -1
      else 0)"


section \<open>Console parameter\<close>

text \<open>\<^verbatim>\<open>read_console\<close> returns -1 on every failure and logs nothing; the error value
  records which check failed.\<close>

datatype console_error =
  ConsoleOpenError | ConsoleReadError | ConsoleNotFound | ConsoleBadLength | ConsolePathTooLong

text \<open>\<^verbatim>\<open>while (*end && *end != ' ' && *end != ',' && *end != '\n') end++;\<close>\<close>

fun console_end :: "string \<Rightarrow> string" where
  "console_end [] = []"
| "console_end (c # cs) =
     (if c \<noteq> SPACE \<and> c \<noteq> COMMA \<and> c \<noteq> NEWLINE then console_end cs else c # cs)"

text \<open>\<^verbatim>\<open>snprintf(buf, bufsize, ...)\<close> keeps at most \<open>bufsize - 1\<close> bytes of the output.\<close>

definition snprintf :: "nat \<Rightarrow> string \<Rightarrow> string" where
  "snprintf bufsize output = take (bufsize - 1) output"

definition read_console :: "cmdline_file \<Rightarrow> nat \<Rightarrow> console_error + string" where
  "read_console file bufsize =
     (case file of
        OpenFails \<Rightarrow> Inl ConsoleOpenError
      | ReadFails \<Rightarrow> Inl ConsoleReadError
      | ReadOk bytes \<Rightarrow>
          (case strstr (read_cmdline bytes) CONSOLE_KEY of
             None \<Rightarrow> Inl ConsoleNotFound
           | Some found \<Rightarrow>
               let start = drop (length CONSOLE_KEY) found;
                   end = console_end start;
                   len = length start - length end
               in if len = 0 \<or> len \<ge> bufsize then Inl ConsoleBadLength
                  else if len + 5 \<ge> bufsize then Inl ConsolePathTooLong
                  else Inr (snprintf bufsize (''/dev/'' @ take len start))))"

section \<open>Supervisor\<close>

text \<open>
  The globals of the program, with what the supervisor does to the outside: the
  \<^verbatim>\<open>kill\<close> calls it makes and the lines the main loop logs.
\<close>

datatype log_line = ChildExitedWithStatus int

record sup_state =
  child_pid :: int
  child_exited :: int
  child_exit_status :: int
  console_device :: string
  kills :: "(int \<times> int) list"
  log :: "log_line list"

definition SIGHUP :: int where "SIGHUP = 1"
definition SIGINT :: int where "SIGINT = 2"
definition SIGTERM :: int where "SIGTERM = 15"
definition SIGCHLD :: int where "SIGCHLD = 17"

text \<open>
  The wait status macros of \<^verbatim>\<open><sys/wait.h>\<close> on Linux, on the \<^verbatim>\<open>int\<close> that
  \<^verbatim>\<open>waitpid\<close> stores.
\<close>

definition WTERMSIG :: "int \<Rightarrow> int" where
  "WTERMSIG status = status AND 0x7f"

definition WIFEXITED :: "int \<Rightarrow> bool" where
  "WIFEXITED status \<longleftrightarrow> WTERMSIG status = 0"

definition WEXITSTATUS :: "int \<Rightarrow> int" where
  "WEXITSTATUS status = drop_bit 8 (status AND 0xff00)"

definition WIFSIGNALED :: "int \<Rightarrow> bool" where
  "WIFSIGNALED status \<longleftrightarrow>
     0 < drop_bit 1 (sint (word_of_int ((status AND 0x7f) + 1) :: 8 word))"

text \<open>
  \<^verbatim>\<open>sigchld_handler\<close>. The list holds what the successive calls
  \<^verbatim>\<open>waitpid(-1, &status, WNOHANG)\<close> return, as pairs of the returned pid and the status
  stored; when the list is used up the call returns 0 or -1. The loop runs while the
  returned pid is positive.
\<close>

fun sigchld_handler :: "(int \<times> int) list \<Rightarrow> sup_state \<Rightarrow> sup_state" where
  "sigchld_handler [] s = s"
| "sigchld_handler ((pid, status) # waits) s =
     (if pid > 0 then
        sigchld_handler waits
          (if pid = child_pid s then
             (let s1 = s\<lparr>child_exited := 1\<rparr> in
              if WIFEXITED status then s1\<lparr>child_exit_status := WEXITSTATUS status\<rparr>
              else if WIFSIGNALED status then s1\<lparr>child_exit_status := 128 + WTERMSIG status\<rparr>
              else s1)
           else s)
      else s)"

definition forward_signal :: "int \<Rightarrow> sup_state \<Rightarrow> sup_state" where
  "forward_signal sig s =
     (if child_pid s > 0 then s\<lparr>kills := kills s @ [(child_pid s, sig)]\<rparr> else s)"

text \<open>The handler a signal is bound to: none of this program's, or one of its two.\<close>

datatype handler = NoHandler | SigchldHandler | ForwardSignal

type_synonym dispositions = "int \<Rightarrow> handler"

definition setup_signals :: "dispositions \<Rightarrow> dispositions" where
  "setup_signals d =
     d(SIGCHLD := SigchldHandler, SIGTERM := ForwardSignal, SIGINT := ForwardSignal,
       SIGHUP := ForwardSignal)"

text \<open>A signal that reaches the supervisor, with what \<^verbatim>\<open>waitpid\<close> would return then.\<close>

datatype event = Signal int "(int \<times> int) list"

fun deliver :: "dispositions \<Rightarrow> event \<Rightarrow> sup_state \<Rightarrow> sup_state" where
  "deliver d (Signal sig waits) s =
     (case d sig of
        SigchldHandler \<Rightarrow> sigchld_handler waits s
      | ForwardSignal \<Rightarrow> forward_signal sig s
      | NoHandler \<Rightarrow> s)"

text \<open>The body of \<^verbatim>\<open>for (;;)\<close> in \<^verbatim>\<open>main\<close>, after \<^verbatim>\<open>pause()\<close> has returned.\<close>

definition loop_body :: "sup_state \<Rightarrow> sup_state" where
  "loop_body s =
     (if child_exited s \<noteq> 0
      then s\<lparr>log := log s @ [ChildExitedWithStatus (child_exit_status s)], child_exited := 0\<rparr>
      else s)"

text \<open>
  The loop itself: each signal runs its handler, \<^verbatim>\<open>pause()\<close> returns and the body
  runs. The result is the value \<^verbatim>\<open>main\<close> returns from inside the loop; the loop has no
  \<^verbatim>\<open>break\<close> and no \<^verbatim>\<open>return\<close>, so when the signals are used up the process is
  blocked in \<^verbatim>\<open>pause()\<close> and nothing has been returned.
\<close>

fun supervise :: "dispositions \<Rightarrow> event list \<Rightarrow> sup_state \<Rightarrow> int option" where
  "supervise d [] s = None"
| "supervise d (e # es) s = supervise d es (loop_body (deliver d e s))"

section \<open>The main function\<close>

text \<open>
  How a process ends, for the status its parent reads: it calls \<^verbatim>\<open>_exit\<close> (or
  returns from \<^verbatim>\<open>main\<close>) with a value, or a signal kills it, with or without a core
  dump. On Linux the parent's \<^verbatim>\<open>waitpid\<close> stores the low eight bits of the value in
  bits 8 to 15, or the signal number in bits 0 to 6 and the core flag in bit 7.
\<close>

datatype proc_end = Exits int | Killed int bool

fun wait_status :: "proc_end \<Rightarrow> int" where
  "wait_status (Exits code) = push_bit 8 (code AND 0xff)"
| "wait_status (Killed sig core) = sig OR (if core then 0x80 else 0)"

text \<open>
  What \<^verbatim>\<open>main\<close> is given by its surroundings: the kernel's answers to the mount and
  mkdir calls, the command line as each of the two readers finds it, the memory of
  \<^verbatim>\<open>ep_argv\<close>, the signal dispositions at start, the value \<^verbatim>\<open>fork\<close> returns, whether
  \<^verbatim>\<open>execv\<close> succeeds in the child, and the signals that reach the parent.
\<close>

record env =
  mount_sys :: mount_sys
  mkdir_sys :: mkdir_sys
  cmdline_entrypoint :: cmdline_file
  cmdline_console :: cmdline_file
  ep_argv :: argv
  dispositions :: dispositions
  fork_result :: int
  execv_fails :: bool
  signals :: "event list"

text \<open>
  How \<^verbatim>\<open>main\<close> ends: it returns a status; or, in the child, \<^verbatim>\<open>execv\<close> replaces the
  process image (with the console the child attached, the path and the argument
  strings), or fails and the child calls \<^verbatim>\<open>_exit\<close>.
\<close>

datatype outcome =
  Returned int
| ChildExecs string string "string option list"
| ChildExits string proc_end

text \<open>
  \<^verbatim>\<open>main\<close> up to the call of \<^verbatim>\<open>fork\<close>: \<open>Inl\<close> the status of an early
  \<^verbatim>\<open>return\<close>, \<open>Inr\<close> the globals and the parsed entrypoint when \<^verbatim>\<open>fork\<close> is reached.
  The lines logged on the way are not part of the model.
\<close>

definition boot :: "env \<Rightarrow> int + (sup_state \<times> parse_result \<times> dispositions)" where
  "boot e =
     (if mount_filesystems (mount_sys e) (mkdir_sys e) < 0 then Inl 1
      else
        (case read_entrypoint (cmdline_entrypoint e) MAX_ENTRYPOINT_LEN of
           Inl err \<Rightarrow> Inl 1
         | Inr entrypoint \<Rightarrow>
             let console =
                   (case read_console (cmdline_console e) MAX_CONSOLE_LEN of
                      Inr path \<Rightarrow> path
                    | Inl err \<Rightarrow> []);
                 parsed = parse_args entrypoint (ep_argv e) MAX_ARGS
             in if ret parsed = 0 then Inl 1
                else
                  Inr (\<lparr>child_pid = -1, child_exited = 0, child_exit_status = 0,
                        console_device = console, kills = [], log = []\<rparr>,
                       parsed, setup_signals (dispositions e))))"

text \<open>
  \<^verbatim>\<open>main\<close>: \<open>None\<close> when it has not returned, which is the parent in its loop.
  \<^verbatim>\<open>execv(ep_argv[0], ep_argv)\<close> gets the string of the first slot as path.
\<close>

definition main :: "env \<Rightarrow> outcome option" where
  "main e =
     (case boot e of
        Inl status \<Rightarrow> Some (Returned status)
      | Inr (s0, parsed, d) \<Rightarrow>
          let s = s0\<lparr>child_pid := fork_result e\<rparr> in
          if child_pid s < 0 then Some (Returned 1)
          else if child_pid s = 0 then
            (if execv_fails e then Some (ChildExits (console_device s) (Exits 127))
             else Some (ChildExecs (console_device s)
                          (case args_of parsed of Some path # _ \<Rightarrow> path | _ \<Rightarrow> [])
                          (args_of parsed)))
          else map_option Returned (supervise d (signals e) s))"

section \<open>The tokenizer as the specification words it\<close>

text \<open>
  Section 4.4 of the specification, on strings alone, with no buffer and no pointers. An
  argument is read in one of two modes: unquoted, or quoted with a terminator. Unquoted,
  a \<open>"\<close> or \<open>'\<close> enters quoted mode with that character as terminator and is dropped,
  a space or tab ends the argument, and any other character belongs to it. Quoted, the
  terminator returns to unquoted mode and is dropped, and any other character, blank or
  not, belongs to the argument. The result is the argument and the input left after it.
\<close>

definition is_blank :: "char \<Rightarrow> bool" where
  "is_blank c \<longleftrightarrow> c = SPACE \<or> c = TAB"

definition is_quote :: "char \<Rightarrow> bool" where
  "is_quote c \<longleftrightarrow> c = DQUOTE \<or> c = SQUOTE"

fun arg_spec :: "char option \<Rightarrow> string \<Rightarrow> string \<times> string" where
  "arg_spec mode [] = ([], [])"
| "arg_spec None (c # cs) =
     (if is_quote c then arg_spec (Some c) cs
      else if is_blank c then ([], cs)
      else (case arg_spec None cs of (arg, left) \<Rightarrow> (c # arg, left)))"
| "arg_spec (Some q) (c # cs) =
     (if c = q then arg_spec None cs
      else (case arg_spec (Some q) cs of (arg, left) \<Rightarrow> (c # arg, left)))"

lemma arg_spec_length: "length (snd (arg_spec mode s)) \<le> length s"
  by (induction mode s rule: arg_spec.induct) (auto split: prod.splits)

lemma arg_spec_Cons_length:
  "arg_spec mode (c # cs) = (arg, left) \<Longrightarrow> length left \<le> length cs"
  using arg_spec_length [of None cs] arg_spec_length [of "Some c" cs]
    arg_spec_length [of mode cs]
  by (cases mode) (auto split: if_splits prod.splits)

text \<open>All the arguments of a string: leading blanks are skipped, one argument is read,
  and so on until nothing but blanks is left.\<close>

function tokenize_spec :: "string \<Rightarrow> string list" where
  "tokenize_spec s =
     (case dropWhile is_blank s of
        [] \<Rightarrow> []
      | c # cs \<Rightarrow> (case arg_spec None (c # cs) of (arg, left) \<Rightarrow> arg # tokenize_spec left))"
  by pat_completeness auto
termination
proof (relation "measure length")
  show "wf (measure length)"
    by simp
next
  fix s :: string and c cs arg left
  assume s: "dropWhile is_blank s = c # cs" and left: "(arg, left) = arg_spec None (c # cs)"
  have "length left \<le> length cs"
    using arg_spec_Cons_length [of None c cs arg left] left by simp
  moreover have "length (c # cs) \<le> length s"
    using s length_dropWhile_le [of is_blank s] by simp
  ultimately show "(left, s) \<in> measure length"
    by simp
qed

declare tokenize_spec.simps [simp del]

text \<open>Splitting on runs of spaces and tabs, with no quoting: the maximal runs of
  characters that are not blank.\<close>

function blank_split :: "string \<Rightarrow> string list" where
  "blank_split s =
     (case dropWhile is_blank s of
        [] \<Rightarrow> []
      | c # cs \<Rightarrow>
          takeWhile (\<lambda>c. \<not> is_blank c) (c # cs)
            # blank_split (dropWhile (\<lambda>c. \<not> is_blank c) (c # cs)))"
  by pat_completeness auto
termination
proof (relation "measure length")
  show "wf (measure length)"
    by simp
next
  fix s :: string and c cs
  assume s: "dropWhile is_blank s = c # cs"
  have "\<not> is_blank c"
    using hd_dropWhile [of is_blank s] s by simp
  then have "length (dropWhile (\<lambda>c. \<not> is_blank c) (c # cs)) \<le> length cs"
    using length_dropWhile_le [of "\<lambda>c. \<not> is_blank c" cs] by simp
  moreover have "length (c # cs) \<le> length s"
    using s length_dropWhile_le [of is_blank s] by simp
  ultimately show "(dropWhile (\<lambda>c. \<not> is_blank c) (c # cs), s) \<in> measure length"
    by simp
qed

declare blank_split.simps [simp del]

section \<open>An example environment\<close>

text \<open>
  A boot that reaches \<^verbatim>\<open>fork\<close>: the mounts succeed, \<^verbatim>\<open>/dev/pts\<close> exists already,
  the command line names a console and an unquoted entrypoint. As given, \<^verbatim>\<open>fork\<close>
  returns in the child and \<^verbatim>\<open>execv\<close> fails there.
\<close>

definition example_env :: env where
  "example_env =
     \<lparr>mount_sys = (\<lambda>source target fstype flags. Ok),
      mkdir_sys = (\<lambda>path mode. Err EEXIST),
      cmdline_entrypoint = ReadOk (''console=ttyS0,115200 kerf.entrypoint=/bin/sh'' @ [NEWLINE]),
      cmdline_console = ReadOk (''console=ttyS0,115200 kerf.entrypoint=/bin/sh'' @ [NEWLINE]),
      ep_argv = (\<lambda>i. None),
      dispositions = (\<lambda>sig. NoHandler),
      fork_result = 0,
      execv_fails = True,
      signals = []\<rparr>"

section \<open>Facts about the string functions\<close>

lemma strstr_first:
  assumes "\<forall>i<length pre. \<not> prefix needle (drop i (pre @ found))" and "prefix needle found"
  shows "strstr (pre @ found) needle = Some found"
  using assms
proof (induction pre)
  case Nil
  then show ?case by (cases found) auto
next
  case (Cons c pre)
  have "\<not> prefix needle ((c # pre) @ found)"
    using Cons.prems(1) by (auto dest: spec [of _ 0])
  moreover have "\<forall>i<length pre. \<not> prefix needle (drop i (pre @ found))"
  proof (intro allI impI)
    fix i assume "i < length pre"
    then show "\<not> prefix needle (drop i (pre @ found))"
      using Cons.prems(1) by (auto dest: spec [of _ "Suc i"])
  qed
  ultimately show ?case
    using Cons.IH Cons.prems(2) by simp
qed

lemma strstr_Some:
  "strstr s needle = Some found \<Longrightarrow>
     \<exists>pre. s = pre @ found \<and> prefix needle found \<and> (\<forall>i<length pre. \<not> prefix needle (drop i s))"
proof (induction s needle rule: strstr.induct)
  case (1 needle)
  then show ?case by (auto split: if_splits)
next
  case (2 c cs needle)
  show ?case
  proof (cases "prefix needle (c # cs)")
    case True
    with 2 show ?thesis by auto
  next
    case False
    with 2 obtain pre where pre: "cs = pre @ found" "prefix needle found"
      "\<forall>i<length pre. \<not> prefix needle (drop i cs)"
      by auto
    have "\<forall>i<length (c # pre). \<not> prefix needle (drop i (c # cs))"
    proof (intro allI impI)
      fix i assume "i < length (c # pre)"
      then show "\<not> prefix needle (drop i (c # cs))"
        using False pre(3) by (cases i) auto
    qed
    then show ?thesis
      using pre(1,2) by (metis append_Cons)
  qed
qed

lemma strstr_None: "strstr s needle = None \<longleftrightarrow> (\<forall>i\<le>length s. \<not> prefix needle (drop i s))"
proof (induction s needle rule: strstr.induct)
  case (1 needle)
  then show ?case by auto
next
  case (2 c cs needle)
  show ?case
  proof (cases "prefix needle (c # cs)")
    case True
    then show ?thesis by (auto intro: exI [of _ 0])
  next
    case False
    have "(\<forall>i\<le>length (c # cs). \<not> prefix needle (drop i (c # cs))) \<longleftrightarrow>
          (\<forall>i\<le>length cs. \<not> prefix needle (drop i cs))"
    proof
      assume a: "\<forall>i\<le>length (c # cs). \<not> prefix needle (drop i (c # cs))"
      show "\<forall>i\<le>length cs. \<not> prefix needle (drop i cs)"
      proof (intro allI impI)
        fix i assume "i \<le> length cs"
        then show "\<not> prefix needle (drop i cs)"
          using a by (auto dest: spec [of _ "Suc i"])
      qed
    next
      assume a: "\<forall>i\<le>length cs. \<not> prefix needle (drop i cs)"
      show "\<forall>i\<le>length (c # cs). \<not> prefix needle (drop i (c # cs))"
      proof (intro allI impI)
        fix i assume "i \<le> length (c # cs)"
        then show "\<not> prefix needle (drop i (c # cs))"
          using a False by (cases i) auto
      qed
    qed
    with False 2 show ?thesis by simp
  qed
qed

lemma strchr_append:
  "ch \<notin> set v \<Longrightarrow> strchr (v @ ch # post) ch = Some (ch # post)"
  by (induction v) auto

lemma copy_value_take:
  "copy_value (v @ e) e bufsize =
     (if v = [] then Inl Empty else if bufsize \<le> length v then Inl TooLong else Inr v)"
  by (simp add: copy_value_def Let_def)

lemma read_entrypoint_quoted:
  assumes cl: "read_cmdline bytes = pre @ ENTRYPOINT_KEY @ DQUOTE # v @ DQUOTE # post"
    and first: "\<forall>i<length pre. \<not> prefix ENTRYPOINT_KEY (drop i (read_cmdline bytes))"
    and v: "DQUOTE \<notin> set v"
  shows "read_entrypoint (ReadOk bytes) bufsize =
     (if v = [] then Inl Empty else if bufsize \<le> length v then Inl TooLong else Inr v)"
proof -
  let ?found = "ENTRYPOINT_KEY @ DQUOTE # v @ DQUOTE # post"
  have "strstr (pre @ ?found) ENTRYPOINT_KEY = Some ?found"
    using first unfolding cl by (intro strstr_first) simp_all
  then have "strstr (read_cmdline bytes) ENTRYPOINT_KEY = Some ?found"
    by (simp add: cl)
  moreover have "strchr (v @ DQUOTE # post) DQUOTE = Some (DQUOTE # post)"
    using v by (rule strchr_append)
  ultimately show ?thesis
    using copy_value_take [of v "DQUOTE # post" bufsize]
    by (simp add: read_entrypoint_def Let_def)
qed

section \<open>Two-stage quoting\<close>

text \<open>
  C1. Two-stage quoting. When the first occurrence of the marker in the command line is
  followed by a double quote, the value \<open>a b c\<close> (or \<open>/bin/sh -c 'echo hi'\<close>) and the
  closing double quote, \<^verbatim>\<open>read_entrypoint\<close> writes the value with only the outer double
  quotes stripped. \<^verbatim>\<open>parse_args\<close> then splits \<open>a b c\<close> into the three arguments
  \<open>a\<close>, \<open>b\<close>, \<open>c\<close>, and \<open>/bin/sh -c 'echo hi'\<close> into \<open>/bin/sh\<close>, \<open>-c\<close>,
  \<open>echo hi\<close>; the same string with double quotes in place of the single quotes gives the
  same three arguments.
\<close>

theorem two_stage_quoting:
  assumes cl: "read_cmdline bytes = pre @ ENTRYPOINT_KEY @ [DQUOTE] @ v @ [DQUOTE] @ post"
    and first: "\<forall>i<length pre. \<not> prefix ENTRYPOINT_KEY (drop i (read_cmdline bytes))"
    and v: "v = ''a b c'' \<or> v = ''/bin/sh -c '' @ [SQUOTE] @ ''echo hi'' @ [SQUOTE]"
    and fits: "length v < bufsize"
  shows "read_entrypoint (ReadOk bytes) bufsize = Inr v
    \<and> args_of (parse_args ''a b c'' argv MAX_ARGS) = [Some ''a'', Some ''b'', Some ''c'']
    \<and> ret (parse_args ''a b c'' argv MAX_ARGS) = 3
    \<and> args_of (parse_args (''/bin/sh -c '' @ [SQUOTE] @ ''echo hi'' @ [SQUOTE]) argv MAX_ARGS)
        = [Some ''/bin/sh'', Some ''-c'', Some ''echo hi'']
    \<and> ret (parse_args (''/bin/sh -c '' @ [SQUOTE] @ ''echo hi'' @ [SQUOTE]) argv MAX_ARGS) = 3
    \<and> args_of (parse_args (''/bin/sh -c '' @ [DQUOTE] @ ''echo hi'' @ [DQUOTE]) argv MAX_ARGS)
        = [Some ''/bin/sh'', Some ''-c'', Some ''echo hi'']"
proof -
  have "DQUOTE \<notin> set v" and "v \<noteq> []"
    using v by auto
  then have "read_entrypoint (ReadOk bytes) bufsize = Inr v"
    using read_entrypoint_quoted [of bytes pre v post bufsize] cl first fits by simp
  moreover have "args_of (parse_args ''a b c'' argv MAX_ARGS) = [Some ''a'', Some ''b'', Some ''c'']"
    by (simp add: args_of_def parse_args_def parse_loop.simps c_str_def str_at_def MAX_ARGS_def
        upt_conv_Cons)
  moreover have "ret (parse_args ''a b c'' argv MAX_ARGS) = 3"
    by (simp add: parse_args_def parse_loop.simps c_str_def MAX_ARGS_def)
  moreover have "args_of (parse_args (''/bin/sh -c '' @ [SQUOTE] @ ''echo hi'' @ [SQUOTE]) argv MAX_ARGS)
        = [Some ''/bin/sh'', Some ''-c'', Some ''echo hi'']"
    by (simp add: args_of_def parse_args_def parse_loop.simps c_str_def str_at_def MAX_ARGS_def
        upt_conv_Cons)
  moreover have "ret (parse_args (''/bin/sh -c '' @ [SQUOTE] @ ''echo hi'' @ [SQUOTE]) argv MAX_ARGS) = 3"
    by (simp add: parse_args_def parse_loop.simps c_str_def MAX_ARGS_def)
  moreover have "args_of (parse_args (''/bin/sh -c '' @ [DQUOTE] @ ''echo hi'' @ [DQUOTE]) argv MAX_ARGS)
        = [Some ''/bin/sh'', Some ''-c'', Some ''echo hi'']"
    by (simp add: args_of_def parse_args_def parse_loop.simps c_str_def str_at_def MAX_ARGS_def
        upt_conv_Cons)
  ultimately show ?thesis
    by simp
qed

text \<open>Two command lines that satisfy the hypotheses of C1, one for each value.\<close>

theorem two_stage_quoting_witness:
  "read_entrypoint (ReadOk (''ro '' @ ENTRYPOINT_KEY @ [DQUOTE] @ ''a b c'' @ [DQUOTE] @ '' quiet'' @ [NEWLINE])) MAX_ENTRYPOINT_LEN = Inr ''a b c''
    \<and> args_of (parse_args ''a b c'' (\<lambda>_. None) MAX_ARGS) = [Some ''a'', Some ''b'', Some ''c'']
    \<and> read_entrypoint (ReadOk (''console=ttyS0 '' @ ENTRYPOINT_KEY @ [DQUOTE] @ ''/bin/sh -c '' @ [SQUOTE] @ ''echo hi'' @ [SQUOTE] @ [DQUOTE] @ [NEWLINE])) MAX_ENTRYPOINT_LEN
        = Inr (''/bin/sh -c '' @ [SQUOTE] @ ''echo hi'' @ [SQUOTE])
    \<and> args_of (parse_args (''/bin/sh -c '' @ [SQUOTE] @ ''echo hi'' @ [SQUOTE]) (\<lambda>_. None) MAX_ARGS)
        = [Some ''/bin/sh'', Some ''-c'', Some ''echo hi'']"
proof -
  let ?b1 = "''ro '' @ ENTRYPOINT_KEY @ [DQUOTE] @ ''a b c'' @ [DQUOTE] @ '' quiet'' @ [NEWLINE]"
  let ?sh = "''/bin/sh -c '' @ [SQUOTE] @ ''echo hi'' @ [SQUOTE]"
  let ?b2 = "''console=ttyS0 '' @ ENTRYPOINT_KEY @ [DQUOTE] @ ?sh @ [DQUOTE] @ [NEWLINE]"
  have c1: "read_cmdline ?b1 = ''ro '' @ ENTRYPOINT_KEY @ [DQUOTE] @ ''a b c'' @ [DQUOTE] @ '' quiet'' @ [NEWLINE]"
    by (simp add: read_cmdline_def c_str_def MAX_CMDLINE_LEN_def ENTRYPOINT_KEY_def)
  have f1: "\<forall>i<length ''ro ''. \<not> prefix ENTRYPOINT_KEY (drop i (read_cmdline ?b1))"
    by (simp add: read_cmdline_def c_str_def MAX_CMDLINE_LEN_def ENTRYPOINT_KEY_def All_less_Suc)
  have c2: "read_cmdline ?b2 = ''console=ttyS0 '' @ ENTRYPOINT_KEY @ [DQUOTE] @ ?sh @ [DQUOTE] @ [NEWLINE]"
    by (simp add: read_cmdline_def c_str_def MAX_CMDLINE_LEN_def ENTRYPOINT_KEY_def)
  have f2: "\<forall>i<length ''console=ttyS0 ''. \<not> prefix ENTRYPOINT_KEY (drop i (read_cmdline ?b2))"
    by (simp add: read_cmdline_def c_str_def MAX_CMDLINE_LEN_def ENTRYPOINT_KEY_def All_less_Suc)
  show ?thesis
    using two_stage_quoting [OF c1 f1, of MAX_ENTRYPOINT_LEN "\<lambda>_. None"]
      two_stage_quoting [OF c2 f2, of MAX_ENTRYPOINT_LEN "\<lambda>_. None"]
    by (simp add: MAX_ENTRYPOINT_LEN_def)
qed

section \<open>Claims about the filesystem bootstrap, the supervisor and \<^verbatim>\<open>main\<close>\<close>

lemma do_mount_eq:
  "do_mount mount source target fstype flags =
     (if mount source target fstype flags \<in> {Ok, Err EBUSY} then 0 else -1)"
  by (auto simp: do_mount_def split: sysres.splits)

lemma do_mkdir_eq:
  "do_mkdir mkdir path mode = (if mkdir path mode \<in> {Ok, Err EEXIST} then 0 else -1)"
  by (auto simp: do_mkdir_def split: sysres.splits)

text \<open>
  C7. Mount idempotence. \<^verbatim>\<open>mount_filesystems\<close> returns 0 exactly when each of its four
  mounts succeeds or fails with EBUSY and its mkdir succeeds or fails with EEXIST, and -1
  otherwise. So a second run, in which the kernel answers every mount with success or
  EBUSY and every mkdir with success or EEXIST, returns 0; and any other errno makes
  \<^verbatim>\<open>do_mount\<close> or \<^verbatim>\<open>do_mkdir\<close> return -1.
\<close>

theorem mount_idempotence:
  "mount_filesystems mount mkdir =
     (if mount ''proc'' ''/proc'' ''proc'' (MS_NOSUID OR MS_NODEV OR MS_NOEXEC) \<in> {Ok, Err EBUSY}
       \<and> mount ''sysfs'' ''/sys'' ''sysfs'' (MS_NOSUID OR MS_NODEV OR MS_NOEXEC) \<in> {Ok, Err EBUSY}
       \<and> mount ''devtmpfs'' ''/dev'' ''devtmpfs'' MS_NOSUID \<in> {Ok, Err EBUSY}
       \<and> mkdir ''/dev/pts'' 493 \<in> {Ok, Err EEXIST}
       \<and> mount ''devpts'' ''/dev/pts'' ''devpts'' (MS_NOSUID OR MS_NOEXEC) \<in> {Ok, Err EBUSY}
      then 0 else -1)
   \<and> ((\<forall>source target fstype flags. mount2 source target fstype flags \<in> {Ok, Err EBUSY})
        \<and> (\<forall>path mode. mkdir2 path mode \<in> {Ok, Err EEXIST})
       \<longrightarrow> mount_filesystems mount2 mkdir2 = 0)
   \<and> (mount source target fstype flags = Err errno \<and> errno \<noteq> EBUSY
       \<longrightarrow> do_mount mount source target fstype flags = -1)
   \<and> (mkdir path mode = Err errno2 \<and> errno2 \<noteq> EEXIST \<longrightarrow> do_mkdir mkdir path mode = -1)"
proof -
  have first: "mount_filesystems mount mkdir =
     (if mount ''proc'' ''/proc'' ''proc'' (MS_NOSUID OR MS_NODEV OR MS_NOEXEC) \<in> {Ok, Err EBUSY}
       \<and> mount ''sysfs'' ''/sys'' ''sysfs'' (MS_NOSUID OR MS_NODEV OR MS_NOEXEC) \<in> {Ok, Err EBUSY}
       \<and> mount ''devtmpfs'' ''/dev'' ''devtmpfs'' MS_NOSUID \<in> {Ok, Err EBUSY}
       \<and> mkdir ''/dev/pts'' 493 \<in> {Ok, Err EEXIST}
       \<and> mount ''devpts'' ''/dev/pts'' ''devpts'' (MS_NOSUID OR MS_NOEXEC) \<in> {Ok, Err EBUSY}
      then 0 else -1)" for mount mkdir
    unfolding mount_filesystems_def do_mount_eq do_mkdir_eq by simp
  have second: "mount_filesystems mount2 mkdir2 = 0"
    if "\<forall>source target fstype flags. mount2 source target fstype flags \<in> {Ok, Err EBUSY}"
      and "\<forall>path mode. mkdir2 path mode \<in> {Ok, Err EEXIST}"
    unfolding first using that by simp
  have third: "do_mount mount source target fstype flags = -1"
    if "mount source target fstype flags = Err errno" and "errno \<noteq> EBUSY"
    using that by (simp add: do_mount_def)
  have fourth: "do_mkdir mkdir path mode = -1"
    if "mkdir path mode = Err errno2" and "errno2 \<noteq> EEXIST"
    using that by (simp add: do_mkdir_def)
  show ?thesis
    using first [of mount mkdir] second third fourth by blast
qed

text \<open>A kernel that answers EBUSY and EEXIST throughout, and one that answers ENOMEM
  and EACCES.\<close>

theorem mount_idempotence_witness:
  "mount_filesystems (\<lambda>source target fstype flags. Err EBUSY) (\<lambda>path mode. Err EEXIST) = 0
   \<and> mount_filesystems (\<lambda>source target fstype flags. Err 12) (\<lambda>path mode. Err 13) = -1
   \<and> do_mount (\<lambda>source target fstype flags. Err 12) ''proc'' ''/proc'' ''proc'' 14 = -1
   \<and> do_mkdir (\<lambda>path mode. Err 13) ''/dev/pts'' 493 = -1"
proof -
  note inst = mount_idempotence [where mount = "\<lambda>source target fstype flags. Err 12"
      and mkdir = "\<lambda>path mode. Err 13"
      and ?mount2.0 = "\<lambda>source target fstype flags. Err EBUSY"
      and ?mkdir2.0 = "\<lambda>path mode. Err EEXIST"
      and source = "''proc''" and target = "''/proc''" and fstype = "''proc''" and flags = 14
      and errno = 12 and path = "''/dev/pts''" and mode = 493 and ?errno2.0 = 13]
  have "mount_filesystems (\<lambda>source target fstype flags. Err EBUSY) (\<lambda>path mode. Err EEXIST) = 0"
    using inst by simp
  moreover have "mount_filesystems (\<lambda>source target fstype flags. Err 12) (\<lambda>path mode. Err 13) = -1"
    using inst by (simp add: EBUSY_def)
  moreover have "do_mount (\<lambda>source target fstype flags. Err 12) ''proc'' ''/proc'' ''proc'' 14 = -1"
    using inst by (simp add: EBUSY_def)
  moreover have "do_mkdir (\<lambda>path mode. Err 13) ''/dev/pts'' 493 = -1"
    using inst by (simp add: EEXIST_def)
  ultimately show ?thesis
    by simp
qed

text \<open>
  C5. Signal relay. For SIGTERM, SIGINT and SIGHUP the handler that \<^verbatim>\<open>setup_signals\<close>
  installs calls \<^verbatim>\<open>kill\<close> with the recorded child pid and the same signal number when
  the recorded pid is greater than zero, and leaves the state as it is otherwise.
\<close>

theorem signal_relay:
  assumes "sig = SIGTERM \<or> sig = SIGINT \<or> sig = SIGHUP"
  shows "deliver (setup_signals d) (Signal sig waits) s =
           (if child_pid s > 0 then s\<lparr>kills := kills s @ [(child_pid s, sig)]\<rparr> else s)"
  using assms
  by (auto simp: setup_signals_def forward_signal_def SIGTERM_def SIGINT_def SIGHUP_def SIGCHLD_def)

lemma and_255: "(k::int) AND 255 = k mod 256"
proof -
  have "k AND mask 8 = take_bit 8 k" by (simp add: take_bit_eq_mask)
  then show ?thesis by (simp add: take_bit_eq_mod mask_eq_exp_minus_1)
qed

lemma and_127: "(k::int) AND 127 = k mod 128"
proof -
  have "k AND mask 7 = take_bit 7 k" by (simp add: take_bit_eq_mask)
  then show ?thesis by (simp add: take_bit_eq_mod mask_eq_exp_minus_1)
qed

lemma WTERMSIG_Exits: "WTERMSIG (wait_status (Exits code)) = 0"
  by (simp add: WTERMSIG_def and_127 push_bit_eq_mult)

lemma WEXITSTATUS_Exits: "WEXITSTATUS (wait_status (Exits code)) = code mod 256"
proof -
  have "(65280::int) = push_bit 8 255"
    by simp
  then have "push_bit 8 (code AND 255) AND 65280 = push_bit 8 ((code AND 255) AND 255)"
    by (simp only: push_bit_and)
  also have "\<dots> = push_bit 8 (code AND 255)"
    by (simp add: and.assoc)
  finally show ?thesis
    by (simp add: WEXITSTATUS_def drop_bit_push_bit and_255)
qed

lemma or_core:
  assumes "0 < sig" "sig < 127"
  shows "(sig OR (if core then 0x80 else 0)) AND 0x7f = (sig::int)"
proof -
  have sig: "sig AND 127 = sig"
    using assms by (simp add: and_127)
  have "(sig OR 128) AND 127 = (sig AND 127) OR (128 AND 127)"
    by (simp add: bit.conj_disj_distrib2)
  also have "\<dots> = sig"
    by (simp add: sig)
  finally show ?thesis
    by (simp add: sig)
qed

lemma WTERMSIG_Killed:
  "0 < sig \<Longrightarrow> sig < 127 \<Longrightarrow> WTERMSIG (wait_status (Killed sig core)) = sig"
  using or_core [of sig core] by (simp add: WTERMSIG_def)

lemma WIFSIGNALED_Killed:
  assumes "0 < sig" "sig < 127"
  shows "WIFSIGNALED (wait_status (Killed sig core))"
proof -
  have "sint (word_of_int (sig + 1) :: 8 word) = sig + 1"
    unfolding int_word_sint using assms by simp
  moreover have "0 < drop_bit 1 (sig + 1)"
    using assms by (simp add: drop_bit_eq_div)
  ultimately show ?thesis
    using or_core [OF assms, of core] by (simp add: WIFSIGNALED_def)
qed

lemma sigchld_handler_child_pid [simp]: "child_pid (sigchld_handler waits s) = child_pid s"
  by (induction waits s rule: sigchld_handler.induct) (auto simp: Let_def)

lemma sigchld_handler_others:
  "\<forall>(p, st) \<in> set waits. p \<noteq> child_pid s \<Longrightarrow> sigchld_handler waits s = s"
  by (induction waits s rule: sigchld_handler.induct) auto

lemma sigchld_handler_skip:
  "\<forall>(p, st) \<in> set earlier. 0 < p \<and> p \<noteq> child_pid s \<Longrightarrow>
     sigchld_handler (earlier @ waits) s = sigchld_handler waits s"
  by (induction earlier) auto

lemma sigchld_handler_child:
  assumes "child_pid s = pid" and "0 < pid"
    and "\<forall>(p, st) \<in> set earlier. 0 < p \<and> p \<noteq> pid"
    and "\<forall>(p, st) \<in> set later. p \<noteq> pid"
  shows "sigchld_handler (earlier @ (pid, status) # later) s =
     (if WIFEXITED status then s\<lparr>child_exited := 1, child_exit_status := WEXITSTATUS status\<rparr>
      else if WIFSIGNALED status
        then s\<lparr>child_exited := 1, child_exit_status := 128 + WTERMSIG status\<rparr>
      else s\<lparr>child_exited := 1\<rparr>)"
proof -
  have "sigchld_handler (earlier @ (pid, status) # later) s
      = sigchld_handler ((pid, status) # later) s"
    using assms(1,3) by (intro sigchld_handler_skip) auto
  moreover have "sigchld_handler later s' = s'" if "child_pid s' = pid" for s'
    using assms(4) that by (intro sigchld_handler_others) auto
  ultimately show ?thesis
    using assms(1,2) by (simp add: Let_def)
qed

lemma main_execv_fails:
  assumes "boot e = Inr (s0, parsed, d)" and "fork_result e = 0" and "execv_fails e"
  shows "main e = Some (ChildExits (console_device s0) (Exits 127))"
  using assms by (simp add: main_def)

text \<open>
  The exit status convention, once the pid is stored. Let the supervisor hold the pid of
  its child, and let the SIGCHLD handler run when \<^verbatim>\<open>waitpid\<close> reports the child,
  possibly among other processes. Then the handler sets \<^verbatim>\<open>child_exited\<close> and records
  the low eight bits of the exit value for a child that exited (the value itself when it
  is between 0 and 255), and 128 plus the signal number for a child that a signal killed.
  A child whose \<^verbatim>\<open>execv\<close> fails exits with 127, which is then the recorded status.
  The loop body that follows logs the recorded status once and resets \<^verbatim>\<open>child_exited\<close>
  to 0; running the body again changes nothing.
\<close>

lemma exit_status_recorded_after_store:
  assumes pid: "child_pid s = pid" "0 < pid"
    and earlier: "\<forall>(p, st) \<in> set earlier. 0 < p \<and> p \<noteq> pid"
    and later: "\<forall>(p, st) \<in> set later. p \<noteq> pid"
    and how: "case how of Exits code \<Rightarrow> True | Killed sig core \<Rightarrow> 0 < sig \<and> sig < 127"
    and s': "s' = deliver (setup_signals d) (Signal SIGCHLD (earlier @ (pid, wait_status how) # later)) s"
  shows "child_exited s' = 1
    \<and> child_exit_status s' = (case how of Exits code \<Rightarrow> code mod 256 | Killed sig core \<Rightarrow> 128 + sig)
    \<and> (\<forall>code. how = Exits code \<and> 0 \<le> code \<and> code \<le> 255 \<longrightarrow> child_exit_status s' = code)
    \<and> (boot e = Inr (s0, parsed, d0) \<and> fork_result e = 0 \<and> execv_fails e
         \<longrightarrow> main e = Some (ChildExits (console_device s0) (Exits 127)))
    \<and> (how = Exits 127 \<longrightarrow> child_exit_status s' = 127)
    \<and> log (loop_body s') = log s' @ [ChildExitedWithStatus (child_exit_status s')]
    \<and> child_exited (loop_body s') = 0
    \<and> loop_body (loop_body s') = loop_body s'"
proof -
  have handler: "s' = sigchld_handler (earlier @ (pid, wait_status how) # later) s"
    by (simp add: s' setup_signals_def SIGCHLD_def SIGTERM_def SIGINT_def SIGHUP_def)
  note eq = sigchld_handler_child [OF pid earlier later, of "wait_status how"]
  have exited: "child_exited s' = 1"
    unfolding handler eq by simp
  have status: "child_exit_status s' =
      (case how of Exits code \<Rightarrow> code mod 256 | Killed sig core \<Rightarrow> 128 + sig)"
  proof (cases how)
    case (Exits code)
    then show ?thesis
      unfolding handler eq using WTERMSIG_Exits [of code] WEXITSTATUS_Exits [of code]
      by (simp add: WIFEXITED_def)
  next
    case (Killed sig core)
    then have sig: "0 < sig" "sig < 127"
      using how by simp_all
    show ?thesis
      unfolding handler eq
      using Killed WTERMSIG_Killed [OF sig, of core] WIFSIGNALED_Killed [OF sig, of core] sig
      by (simp add: WIFEXITED_def)
  qed
  have body: "log (loop_body s') = log s' @ [ChildExitedWithStatus (child_exit_status s')]"
    "child_exited (loop_body s') = 0" "loop_body (loop_body s') = loop_body s'"
    using exited by (simp_all add: loop_body_def)
  have execs: "main e = Some (ChildExits (console_device s0) (Exits 127))"
    if "boot e = Inr (s0, parsed, d0)" "fork_result e = 0" "execv_fails e"
    using that by (rule main_execv_fails)
  show ?thesis
    using exited status body execs by auto
qed

lemmas eval_defs = example_env_def boot_def mount_filesystems_def do_mount_def do_mkdir_def
  read_entrypoint_def read_console_def read_cmdline_def c_str_def MAX_CMDLINE_LEN_def
  ENTRYPOINT_KEY_def CONSOLE_KEY_def MAX_ENTRYPOINT_LEN_def MAX_CONSOLE_LEN_def MAX_ARGS_def
  parse_args_def parse_loop.simps copy_value_def snprintf_def EEXIST_def EBUSY_def Let_def

lemma boot_example:
  "\<exists>parsed d. boot example_env = Inr (\<lparr>child_pid = -1, child_exited = 0, child_exit_status = 0,
       console_device = ''/dev/ttyS0'', kills = [], log = []\<rparr>, parsed, d)"
  by (simp add: eval_defs)

lemma supervise_None: "supervise d es s = None"
  by (induction es arbitrary: s) auto

text \<open>
  C4. Exit characterization. \<^verbatim>\<open>main\<close> returns exactly when the mounts fail, or
  \<^verbatim>\<open>read_entrypoint\<close> fails, or \<^verbatim>\<open>parse_args\<close> finds no argument, or \<^verbatim>\<open>fork\<close>
  fails; the status it returns is 1. When none of these happens and \<^verbatim>\<open>fork\<close> returns
  a positive pid, \<^verbatim>\<open>main\<close> does not return, whatever signals arrive: the loop returns
  nothing for any state and any list of signals.
\<close>

theorem main_exit_characterization:
  "((\<exists>status. main e = Some (Returned status)) \<longleftrightarrow>
       mount_filesystems (mount_sys e) (mkdir_sys e) < 0
     \<or> (\<exists>err. read_entrypoint (cmdline_entrypoint e) MAX_ENTRYPOINT_LEN = Inl err)
     \<or> (\<exists>v. read_entrypoint (cmdline_entrypoint e) MAX_ENTRYPOINT_LEN = Inr v
            \<and> ret (parse_args v (ep_argv e) MAX_ARGS) = 0)
     \<or> fork_result e < 0)
   \<and> (main e = Some (Returned status) \<longrightarrow> status = 1)
   \<and> (\<not> mount_filesystems (mount_sys e) (mkdir_sys e) < 0
       \<and> read_entrypoint (cmdline_entrypoint e) MAX_ENTRYPOINT_LEN = Inr v
       \<and> ret (parse_args v (ep_argv e) MAX_ARGS) \<noteq> 0
       \<and> 0 < fork_result e
      \<longrightarrow> main e = None)
   \<and> supervise d es s = None"
proof -
  show ?thesis
  proof (cases "mount_filesystems (mount_sys e) (mkdir_sys e) < 0")
    case True
    then have "main e = Some (Returned 1)"
      by (simp add: main_def boot_def)
    with True show ?thesis
      by (simp add: supervise_None)
  next
    case mounted: False
    show ?thesis
    proof (cases "read_entrypoint (cmdline_entrypoint e) MAX_ENTRYPOINT_LEN")
      case (Inl err)
      then have "main e = Some (Returned 1)"
        using mounted by (simp add: main_def boot_def)
      with Inl show ?thesis
        by (simp add: supervise_None)
    next
      case (Inr entrypoint)
      show ?thesis
      proof (cases "ret (parse_args entrypoint (ep_argv e) MAX_ARGS) = 0")
        case True
        then have "main e = Some (Returned 1)"
          using mounted Inr by (simp add: main_def boot_def Let_def)
        with Inr True show ?thesis
          by (auto simp: supervise_None)
      next
        case False
        then show ?thesis
          using mounted Inr
          by (auto simp: main_def boot_def Let_def supervise_None)
      qed
    qed
  qed
qed

lemma console_end_eq:
  "console_end s = dropWhile (\<lambda>c. c \<noteq> SPACE \<and> c \<noteq> COMMA \<and> c \<noteq> NEWLINE) s"
  by (induction s) auto

lemma length_minus_dropWhile: "length s - length (dropWhile P s) = length (takeWhile P s)"
proof -
  have "length s = length (takeWhile P s) + length (dropWhile P s)"
    by (metis length_append takeWhile_dropWhile_id)
  then show ?thesis by simp
qed

lemma length_le_dropWhile_iff: "length s \<le> length (dropWhile P s) \<longleftrightarrow> takeWhile P s = []"
proof -
  have "length s = length (takeWhile P s) + length (dropWhile P s)"
    by (metis length_append takeWhile_dropWhile_id)
  then show ?thesis by simp
qed

lemma take_length_takeWhile: "take (length (takeWhile P s)) s = takeWhile P s"
  by (metis append_eq_conv_conj takeWhile_dropWhile_id)

lemma read_console_found:
  assumes cl: "read_cmdline bytes = pre @ CONSOLE_KEY @ after"
    and first: "\<forall>i<length pre. \<not> prefix CONSOLE_KEY (drop i (read_cmdline bytes))"
  shows "read_console (ReadOk bytes) bufsize =
     (let val = takeWhile (\<lambda>c. c \<noteq> SPACE \<and> c \<noteq> COMMA \<and> c \<noteq> NEWLINE) after in
      if val = [] \<or> bufsize \<le> length val then Inl ConsoleBadLength
      else if bufsize \<le> length val + 5 then Inl ConsolePathTooLong
      else Inr (''/dev/'' @ val))"
proof -
  have "strstr (pre @ CONSOLE_KEY @ after) CONSOLE_KEY = Some (CONSOLE_KEY @ after)"
    using first unfolding cl by (intro strstr_first) simp_all
  then have "strstr (read_cmdline bytes) CONSOLE_KEY = Some (CONSOLE_KEY @ after)"
    by (simp add: cl)
  then show ?thesis
    by (simp add: read_console_def Let_def console_end_eq length_minus_dropWhile
        length_le_dropWhile_iff take_length_takeWhile snprintf_def)
qed

text \<open>
  C6. Console extraction. When the first \<^verbatim>\<open>console=\<close> in the command line is followed
  by \<open>ttyS0,115200\<close>, \<^verbatim>\<open>read_console\<close> with the buffer of \<^verbatim>\<open>main\<close> writes
  \<open>/dev/ttyS0\<close>. In general the value runs up to the first space, comma or newline (or
  the end of the command line), and \<open>/dev/\<close> is put in front of it. When
  \<^verbatim>\<open>read_console\<close> fails and nothing else does, \<^verbatim>\<open>main\<close> reaches \<^verbatim>\<open>fork\<close> with an
  empty \<^verbatim>\<open>console_device\<close>, and the child executes the entrypoint with no console
  attached.
\<close>

theorem console_extraction:
  assumes cl: "read_cmdline bytes = pre @ CONSOLE_KEY @ after"
    and first: "\<forall>i<length pre. \<not> prefix CONSOLE_KEY (drop i (read_cmdline bytes))"
  shows "(after = ''ttyS0,115200'' @ post \<longrightarrow>
            read_console (ReadOk bytes) MAX_CONSOLE_LEN = Inr ''/dev/ttyS0'')
    \<and> read_console (ReadOk bytes) bufsize =
         (let val = takeWhile (\<lambda>c. c \<noteq> SPACE \<and> c \<noteq> COMMA \<and> c \<noteq> NEWLINE) after in
          if val = [] \<or> bufsize \<le> length val then Inl ConsoleBadLength
          else if bufsize \<le> length val + 5 then Inl ConsolePathTooLong
          else Inr (''/dev/'' @ val))
    \<and> (read_console (cmdline_console e) MAX_CONSOLE_LEN = Inl err
         \<and> \<not> mount_filesystems (mount_sys e) (mkdir_sys e) < 0
         \<and> read_entrypoint (cmdline_entrypoint e) MAX_ENTRYPOINT_LEN = Inr v
         \<and> ret (parse_args v (ep_argv e) MAX_ARGS) \<noteq> 0
        \<longrightarrow> boot e = Inr (\<lparr>child_pid = -1, child_exited = 0, child_exit_status = 0,
                               console_device = [], kills = [], log = []\<rparr>,
                             parse_args v (ep_argv e) MAX_ARGS, setup_signals (dispositions e))
          \<and> (fork_result e = 0 \<and> \<not> execv_fails e \<longrightarrow>
               (\<exists>path. main e = Some (ChildExecs [] path
                   (args_of (parse_args v (ep_argv e) MAX_ARGS))))))"
proof -
  note found = read_console_found [OF cl first]
  have "read_console (ReadOk bytes) MAX_CONSOLE_LEN = Inr ''/dev/ttyS0''"
    if "after = ''ttyS0,115200'' @ post"
    unfolding found that by (simp add: MAX_CONSOLE_LEN_def)
  moreover have "boot e = Inr (\<lparr>child_pid = -1, child_exited = 0, child_exit_status = 0,
        console_device = [], kills = [], log = []\<rparr>,
        parse_args v (ep_argv e) MAX_ARGS, setup_signals (dispositions e))"
    if "read_console (cmdline_console e) MAX_CONSOLE_LEN = Inl err"
      "\<not> mount_filesystems (mount_sys e) (mkdir_sys e) < 0"
      "read_entrypoint (cmdline_entrypoint e) MAX_ENTRYPOINT_LEN = Inr v"
      "ret (parse_args v (ep_argv e) MAX_ARGS) \<noteq> 0"
    using that by (simp add: boot_def Let_def)
  moreover have "\<exists>path. main e = Some (ChildExecs [] path
      (args_of (parse_args v (ep_argv e) MAX_ARGS)))"
    if "boot e = Inr (\<lparr>child_pid = -1, child_exited = 0, child_exit_status = 0,
        console_device = [], kills = [], log = []\<rparr>,
        parse_args v (ep_argv e) MAX_ARGS, setup_signals (dispositions e))"
      "fork_result e = 0" "\<not> execv_fails e"
    using that by (simp add: main_def)
  ultimately show ?thesis
    using found by blast
qed

lemma length_read_cmdline: "length (read_cmdline bytes) \<le> MAX_CMDLINE_LEN - 1"
proof -
  have "length (takeWhile (\<lambda>c. c \<noteq> NUL) (take (MAX_CMDLINE_LEN - 1) bytes))
      \<le> length (take (MAX_CMDLINE_LEN - 1) bytes)"
    by (rule length_takeWhile_le)
  then show ?thesis
    by (simp add: read_cmdline_def c_str_def)
qed

lemma copy_value_TooLong: "copy_value start end bufsize = Inl TooLong \<Longrightarrow> bufsize \<le> length start"
  by (auto simp: copy_value_def Let_def split: if_splits)

lemma strchr_eq:
  "strchr s ch = (if ch \<in> set s then Some (dropWhile (\<lambda>c. c \<noteq> ch) s) else None)"
  by (induction s) auto

lemma read_entrypoint_TooLong:
  assumes "read_entrypoint file bufsize = Inl TooLong"
  shows "bufsize + length ENTRYPOINT_KEY \<le> MAX_CMDLINE_LEN - 1"
proof -
  from assms obtain bytes found where src: "file = ReadOk bytes"
    and found: "strstr (read_cmdline bytes) ENTRYPOINT_KEY = Some found"
    by (auto simp: read_entrypoint_def split: cmdline_file.splits option.splits)
  from strstr_Some [OF found] obtain pre where pre: "read_cmdline bytes = pre @ found"
    and key: "prefix ENTRYPOINT_KEY found"
    by blast
  from key obtain after where after: "found = ENTRYPOINT_KEY @ after"
    by (auto simp: prefix_def)
  have "bufsize \<le> length after"
  proof (cases "peek after = DQUOTE")
    case True
    then have "\<exists>end. copy_value (tl after) end bufsize = Inl TooLong"
      using assms src found after
      by (auto simp: read_entrypoint_def Let_def split: option.splits)
    then have "bufsize \<le> length (tl after)"
      by (auto dest: copy_value_TooLong)
    then show ?thesis by simp
  next
    case False
    then have "copy_value after (unquoted_end after) bufsize = Inl TooLong"
      using assms src found after
      by (auto simp: read_entrypoint_def Let_def)
    then show ?thesis
      by (rule copy_value_TooLong)
  qed
  moreover have "length ENTRYPOINT_KEY + length after \<le> MAX_CMDLINE_LEN - 1"
    using length_read_cmdline [of bytes] unfolding pre after by simp
  ultimately show ?thesis
    by simp
qed

text \<open>
  C9. With the buffer size \<^verbatim>\<open>main\<close> passes, 4096, \<^verbatim>\<open>read_entrypoint\<close> never fails with
  "value too long": that failure needs a buffer size of at most 4095 minus the 16 bytes
  of the marker.
\<close>

theorem too_long_unreachable:
  "read_entrypoint file MAX_ENTRYPOINT_LEN \<noteq> Inl TooLong
   \<and> (read_entrypoint file bufsize = Inl TooLong \<longrightarrow>
        bufsize + length ENTRYPOINT_KEY \<le> MAX_CMDLINE_LEN - 1)"
proof -
  have "read_entrypoint file MAX_ENTRYPOINT_LEN \<noteq> Inl TooLong"
  proof
    assume "read_entrypoint file MAX_ENTRYPOINT_LEN = Inl TooLong"
    then have "MAX_ENTRYPOINT_LEN + length ENTRYPOINT_KEY \<le> MAX_CMDLINE_LEN - 1"
      by (rule read_entrypoint_TooLong)
    then show False
      by (simp add: MAX_ENTRYPOINT_LEN_def MAX_CMDLINE_LEN_def)
  qed
  then show ?thesis
    using read_entrypoint_TooLong by blast
qed

text \<open>A buffer of 4 bytes is too small for \<open>/bin/sh\<close>.\<close>

theorem too_long_unreachable_witness:
  "read_entrypoint (ReadOk ''kerf.entrypoint=/bin/sh'') 4 = Inl TooLong
   \<and> 4 + length ENTRYPOINT_KEY \<le> MAX_CMDLINE_LEN - 1
   \<and> read_entrypoint (ReadOk ''kerf.entrypoint=/bin/sh'') MAX_ENTRYPOINT_LEN \<noteq> Inl TooLong"
proof -
  have "read_entrypoint (ReadOk ''kerf.entrypoint=/bin/sh'') 4 = Inl TooLong"
    by (simp add: read_entrypoint_def read_cmdline_def c_str_def MAX_CMDLINE_LEN_def
        ENTRYPOINT_KEY_def copy_value_def)
  then show ?thesis
    using too_long_unreachable [of "ReadOk ''kerf.entrypoint=/bin/sh''" 4] by simp
qed

text \<open>SIGTERM with child 42 recorded, and SIGHUP with no child recorded.\<close>

theorem signal_relay_witness:
  "deliver (setup_signals (\<lambda>sig. NoHandler)) (Signal SIGTERM [])
     \<lparr>child_pid = 42, child_exited = 0, child_exit_status = 0, console_device = [],
      kills = [], log = []\<rparr>
   = \<lparr>child_pid = 42, child_exited = 0, child_exit_status = 0, console_device = [],
      kills = [(42, SIGTERM)], log = []\<rparr>
   \<and> deliver (setup_signals (\<lambda>sig. NoHandler)) (Signal SIGHUP [])
     \<lparr>child_pid = -1, child_exited = 0, child_exit_status = 0, console_device = [],
      kills = [], log = []\<rparr>
   = \<lparr>child_pid = -1, child_exited = 0, child_exit_status = 0, console_device = [],
      kills = [], log = []\<rparr>"
  using signal_relay [of SIGTERM "\<lambda>sig. NoHandler" "[]"
      "\<lparr>child_pid = 42, child_exited = 0, child_exit_status = 0, console_device = [],
        kills = [], log = []\<rparr>"]
    signal_relay [of SIGHUP "\<lambda>sig. NoHandler" "[]"
      "\<lparr>child_pid = -1, child_exited = 0, child_exit_status = 0, console_device = [],
        kills = [], log = []\<rparr>"]
  by simp

text \<open>Child 42 killed by signal 9 after another process was reaped; child 42 exiting
  with 3; and the example environment, where \<^verbatim>\<open>execv\<close> fails.\<close>

lemma exit_status_recorded_examples:
  "child_exit_status (deliver (setup_signals (\<lambda>sig. NoHandler))
       (Signal SIGCHLD [(7, 0), (42, wait_status (Killed 9 False))])
       \<lparr>child_pid = 42, child_exited = 0, child_exit_status = 0, console_device = [],
        kills = [], log = []\<rparr>) = 137
   \<and> child_exit_status (deliver (setup_signals (\<lambda>sig. NoHandler))
       (Signal SIGCHLD [(42, wait_status (Exits 3))])
       \<lparr>child_pid = 42, child_exited = 0, child_exit_status = 0, console_device = [],
        kills = [], log = []\<rparr>) = 3
   \<and> main example_env = Some (ChildExits ''/dev/ttyS0'' (Exits 127))"
proof -
  let ?s = "\<lparr>child_pid = 42, child_exited = 0, child_exit_status = 0, console_device = [],
        kills = [], log = []\<rparr>"
  obtain parsed d where boot: "boot example_env = Inr (\<lparr>child_pid = -1, child_exited = 0,
      child_exit_status = 0, console_device = ''/dev/ttyS0'', kills = [], log = []\<rparr>, parsed, d)"
    using boot_example by blast
  have env: "fork_result example_env = 0" "execv_fails example_env"
    by (simp_all add: example_env_def)
  have "child_exit_status (deliver (setup_signals (\<lambda>sig. NoHandler))
       (Signal SIGCHLD ([(7, 0)] @ (42, wait_status (Killed 9 False)) # [])) ?s) = 137
     \<and> main example_env = Some (ChildExits ''/dev/ttyS0'' (Exits 127))"
    using exit_status_recorded_after_store [where s = ?s and pid = 42 and earlier = "[(7, 0)]"
        and later = "[]" and how = "Killed 9 False" and d = "\<lambda>sig. NoHandler"
        and e = example_env, OF _ _ _ _ _ refl] boot env
    by simp
  moreover have "child_exit_status (deliver (setup_signals (\<lambda>sig. NoHandler))
       (Signal SIGCHLD ([] @ (42, wait_status (Exits 3)) # [])) ?s) = 3"
    using exit_status_recorded_after_store [where s = ?s and pid = 42 and earlier = "[]"
        and later = "[]" and how = "Exits 3" and d = "\<lambda>sig. NoHandler", OF _ _ _ _ _ refl]
    by simp
  ultimately show ?thesis
    by simp
qed

text \<open>A SIGCHLD for a process other than the recorded child changes nothing.\<close>

lemma sigchld_before_store:
  "0 < pid \<Longrightarrow> child_pid s \<noteq> pid \<Longrightarrow>
     deliver (setup_signals d) (Signal SIGCHLD [(pid, status)]) s = s"
  by (simp add: setup_signals_def SIGCHLD_def SIGTERM_def SIGINT_def SIGHUP_def)

text \<open>
  C2. The exit status is not recorded for every child that terminates. \<^verbatim>\<open>main\<close>
  installs the SIGCHLD handler before it calls \<^verbatim>\<open>fork\<close> and stores the pid in
  \<^verbatim>\<open>child_pid\<close> only when \<^verbatim>\<open>fork\<close> has returned. In the example environment with
  \<^verbatim>\<open>fork\<close> returning 42, the state at \<^verbatim>\<open>fork\<close> has \<^verbatim>\<open>child_pid\<close> equal to -1 and the
  handler installed. When the child exits with 127 and SIGCHLD is handled before the
  store, \<^verbatim>\<open>waitpid\<close> returns 42, the comparison with \<^verbatim>\<open>child_pid\<close> fails and the state
  is left as it was: \<^verbatim>\<open>child_exited\<close> and \<^verbatim>\<open>child_exit_status\<close> stay 0. The child is
  reaped by then, so after the store a later SIGCHLD finds nothing, the loop body logs
  nothing, and \<^verbatim>\<open>main\<close> stays in its loop.
\<close>

theorem early_sigchld_lost:
  "map_sum id fst (boot (example_env\<lparr>fork_result := 42\<rparr>))
     = Inr \<lparr>child_pid = -1, child_exited = 0, child_exit_status = 0,
            console_device = ''/dev/ttyS0'', kills = [], log = []\<rparr>
   \<and> map_sum id (snd \<circ> snd) (boot (example_env\<lparr>fork_result := 42\<rparr>))
     = Inr (setup_signals (dispositions example_env))
   \<and> deliver (setup_signals (dispositions example_env))
       (Signal SIGCHLD [(42, wait_status (Exits 127))])
       \<lparr>child_pid = -1, child_exited = 0, child_exit_status = 0,
        console_device = ''/dev/ttyS0'', kills = [], log = []\<rparr>
     = \<lparr>child_pid = -1, child_exited = 0, child_exit_status = 0,
        console_device = ''/dev/ttyS0'', kills = [], log = []\<rparr>
   \<and> loop_body (deliver (setup_signals (dispositions example_env)) (Signal SIGCHLD [])
       \<lparr>child_pid = 42, child_exited = 0, child_exit_status = 0,
        console_device = ''/dev/ttyS0'', kills = [], log = []\<rparr>)
     = \<lparr>child_pid = 42, child_exited = 0, child_exit_status = 0,
        console_device = ''/dev/ttyS0'', kills = [], log = []\<rparr>
   \<and> main (example_env\<lparr>fork_result := 42,
        signals := [Signal SIGCHLD [], Signal SIGTERM []]\<rparr>) = None"
proof -
  let ?s0 = "\<lparr>child_pid = -1, child_exited = 0, child_exit_status = 0,
        console_device = ''/dev/ttyS0'', kills = [], log = []\<rparr>"
  have "map_sum id fst (boot (example_env\<lparr>fork_result := 42\<rparr>)) = Inr ?s0"
    by (simp add: eval_defs)
  moreover have "map_sum id (snd \<circ> snd) (boot (example_env\<lparr>fork_result := 42\<rparr>))
     = Inr (setup_signals (dispositions example_env))"
    by (simp add: eval_defs)
  moreover have "deliver (setup_signals (dispositions example_env))
       (Signal SIGCHLD [(42, wait_status (Exits 127))]) ?s0 = ?s0"
    by (rule sigchld_before_store) simp_all
  moreover have "loop_body (deliver (setup_signals (dispositions example_env))
       (Signal SIGCHLD []) (?s0\<lparr>child_pid := 42\<rparr>)) = ?s0\<lparr>child_pid := 42\<rparr>"
    by (simp add: setup_signals_def SIGCHLD_def SIGTERM_def SIGINT_def SIGHUP_def loop_body_def)
  moreover have "main (example_env\<lparr>fork_result := 42,
        signals := [Signal SIGCHLD [], Signal SIGTERM []]\<rparr>) = None"
    by (simp add: main_def eval_defs)
  ultimately show ?thesis
    by simp
qed

text \<open>The example environment with \<^verbatim>\<open>fork\<close> failing, and with \<^verbatim>\<open>fork\<close> returning
  pid 1 in the parent.\<close>

theorem main_exit_characterization_witness:
  "main (example_env\<lparr>fork_result := -1\<rparr>) = Some (Returned 1)
   \<and> main (example_env\<lparr>fork_result := 1\<rparr>) = None"
proof -
  let ?fail = "example_env\<lparr>fork_result := -1\<rparr>"
  let ?ok = "example_env\<lparr>fork_result := 1\<rparr>"
  have mounted: "\<not> mount_filesystems (mount_sys ?ok) (mkdir_sys ?ok) < 0"
    by (simp add: eval_defs)
  have entry: "read_entrypoint (cmdline_entrypoint ?ok) MAX_ENTRYPOINT_LEN = Inr ''/bin/sh''"
    by (simp add: eval_defs)
  have args: "ret (parse_args ''/bin/sh'' (ep_argv ?ok) MAX_ARGS) \<noteq> 0"
    by (simp add: eval_defs)
  have "main ?ok = None"
    using main_exit_characterization [of ?ok _ "''/bin/sh''"] mounted entry args
    by (simp add: example_env_def)
  moreover have "\<exists>status. main ?fail = Some (Returned status)"
    using main_exit_characterization [of ?fail] by (simp add: example_env_def)
  then have "main ?fail = Some (Returned 1)"
    using main_exit_characterization [of ?fail] by blast
  ultimately show ?thesis
    by simp
qed

text \<open>A command line with \<open>console=ttyS0,115200\<close>, and the example environment with a
  command line that has no \<^verbatim>\<open>console=\<close>.\<close>

theorem console_extraction_witness:
  "read_console (ReadOk (''ro console=ttyS0,115200 quiet'' @ [NEWLINE])) MAX_CONSOLE_LEN
     = Inr ''/dev/ttyS0''
   \<and> (\<exists>parsed d. boot (example_env\<lparr>cmdline_console := ReadOk ''ro quiet''\<rparr>)
        = Inr (\<lparr>child_pid = -1, child_exited = 0, child_exit_status = 0,
                 console_device = [], kills = [], log = []\<rparr>, parsed, d))"
proof -
  let ?bytes = "''ro console=ttyS0,115200 quiet'' @ [NEWLINE]"
  let ?e = "example_env\<lparr>cmdline_console := ReadOk ''ro quiet''\<rparr>"
  have cl: "read_cmdline ?bytes = ''ro '' @ CONSOLE_KEY @ ''ttyS0,115200'' @ '' quiet'' @ [NEWLINE]"
    by (simp add: read_cmdline_def c_str_def MAX_CMDLINE_LEN_def CONSOLE_KEY_def)
  have first: "\<forall>i<length ''ro ''. \<not> prefix CONSOLE_KEY (drop i (read_cmdline ?bytes))"
    by (simp add: read_cmdline_def c_str_def MAX_CMDLINE_LEN_def CONSOLE_KEY_def All_less_Suc)
  have fails: "read_console (cmdline_console ?e) MAX_CONSOLE_LEN = Inl ConsoleNotFound"
    by (simp add: eval_defs)
  have mounted: "\<not> mount_filesystems (mount_sys ?e) (mkdir_sys ?e) < 0"
    by (simp add: eval_defs)
  have entry: "read_entrypoint (cmdline_entrypoint ?e) MAX_ENTRYPOINT_LEN = Inr ''/bin/sh''"
    by (simp add: eval_defs)
  have args: "ret (parse_args ''/bin/sh'' (ep_argv ?e) MAX_ARGS) \<noteq> 0"
    by (simp add: eval_defs)
  note inst = console_extraction [OF cl first, where post = "'' quiet'' @ [NEWLINE]"
      and e = ?e and err = ConsoleNotFound and v = "''/bin/sh''"]
  have "read_console (ReadOk ?bytes) MAX_CONSOLE_LEN = Inr ''/dev/ttyS0''"
    by (rule inst [THEN conjunct1, THEN mp, OF refl])
  moreover have "\<exists>parsed d. boot ?e = Inr (\<lparr>child_pid = -1, child_exited = 0,
      child_exit_status = 0, console_device = [], kills = [], log = []\<rparr>, parsed, d)"
    using inst fails mounted entry args by blast
  ultimately show ?thesis
    by simp
qed

lemma unquoted_end_dropWhile:
  "unquoted_end s = dropWhile (\<lambda>c. c \<noteq> SPACE \<and> c \<noteq> NEWLINE) s"
  by (induction s) auto

lemma copy_value_dropWhile:
  "copy_value s (dropWhile P s) bufsize =
     (if takeWhile P s = [] then Inl Empty
      else if bufsize \<le> length (takeWhile P s) then Inl TooLong
      else Inr (takeWhile P s))"
  by (simp add: copy_value_def Let_def length_minus_dropWhile take_length_takeWhile)

lemma read_entrypoint_found:
  assumes cl: "read_cmdline bytes = pre @ ENTRYPOINT_KEY @ after"
    and first: "\<forall>i<length pre. \<not> prefix ENTRYPOINT_KEY (drop i (read_cmdline bytes))"
  shows "read_entrypoint (ReadOk bytes) bufsize =
     (if peek after = DQUOTE \<and> DQUOTE \<notin> set (tl after) then Inl Malformed
      else
        let val = (if peek after = DQUOTE then takeWhile (\<lambda>c. c \<noteq> DQUOTE) (tl after)
                   else takeWhile (\<lambda>c. c \<noteq> SPACE \<and> c \<noteq> NEWLINE) after)
        in if val = [] then Inl Empty
           else if bufsize \<le> length val then Inl TooLong
           else Inr val)"
proof -
  have "strstr (pre @ ENTRYPOINT_KEY @ after) ENTRYPOINT_KEY = Some (ENTRYPOINT_KEY @ after)"
    using first unfolding cl by (intro strstr_first) simp_all
  then have "strstr (read_cmdline bytes) ENTRYPOINT_KEY = Some (ENTRYPOINT_KEY @ after)"
    by (simp add: cl)
  then show ?thesis
    by (simp add: read_entrypoint_def Let_def strchr_eq unquoted_end_dropWhile
        copy_value_dropWhile)
qed

lemma read_entrypoint_NotFound:
  "read_entrypoint (ReadOk bytes) bufsize = Inl NotFound \<longleftrightarrow>
     (\<forall>i\<le>length (read_cmdline bytes). \<not> prefix ENTRYPOINT_KEY (drop i (read_cmdline bytes)))"
proof (cases "strstr (read_cmdline bytes) ENTRYPOINT_KEY")
  case None
  then show ?thesis
    using strstr_None [of "read_cmdline bytes" ENTRYPOINT_KEY]
    by (simp add: read_entrypoint_def)
next
  case (Some found)
  then have "\<not> (\<forall>i\<le>length (read_cmdline bytes).
      \<not> prefix ENTRYPOINT_KEY (drop i (read_cmdline bytes)))"
    using strstr_None [of "read_cmdline bytes" ENTRYPOINT_KEY] by simp
  moreover have "read_entrypoint (ReadOk bytes) bufsize \<noteq> Inl NotFound"
    using Some
    by (auto simp: read_entrypoint_def Let_def copy_value_def split: option.splits)
  ultimately show ?thesis
    by simp
qed

lemma first_occurrence_exists:
  fixes s :: string
  assumes "\<exists>i\<le>length s. prefix needle (drop i s)"
  shows "\<exists>pre after. s = pre @ needle @ after \<and> (\<forall>i<length pre. \<not> prefix needle (drop i s))"
proof -
  from assms have "strstr s needle \<noteq> None"
    using strstr_None [of s needle] by simp
  then obtain found where "strstr s needle = Some found"
    by auto
  from strstr_Some [OF this] obtain pre where "s = pre @ found" "prefix needle found"
    "\<forall>i<length pre. \<not> prefix needle (drop i s)"
    by blast
  then show ?thesis
    by (auto simp: prefix_def)
qed

text \<open>
  C3, as amended. When \<^verbatim>\<open>/proc/cmdline\<close> has been opened and read,
  \<^verbatim>\<open>read_entrypoint\<close> fails with NotFound exactly when the marker occurs nowhere in the
  command line. Otherwise the marker has a first occurrence, and with \<open>after\<close> the text
  that follows it: if \<open>after\<close> starts with a double quote and has no second one the
  result is Malformed; else the value is the text between the two double quotes, or,
  when \<open>after\<close> does not start with a double quote, the text up to the first space or
  newline (or the end of the command line); the result is Empty when the value is empty,
  TooLong when its length is not below the buffer size, and the value otherwise.
  \<^verbatim>\<open>read_entrypoint\<close> fails as well when the open or the read fails.
\<close>

theorem read_entrypoint_outcomes:
  "(read_entrypoint (ReadOk bytes) bufsize = Inl NotFound \<longleftrightarrow>
      (\<forall>i\<le>length (read_cmdline bytes). \<not> prefix ENTRYPOINT_KEY (drop i (read_cmdline bytes))))
   \<and> ((\<exists>i\<le>length (read_cmdline bytes). prefix ENTRYPOINT_KEY (drop i (read_cmdline bytes)))
       \<longrightarrow> (\<exists>pre after. read_cmdline bytes = pre @ ENTRYPOINT_KEY @ after
             \<and> (\<forall>i<length pre. \<not> prefix ENTRYPOINT_KEY (drop i (read_cmdline bytes)))))
   \<and> (read_cmdline bytes = pre @ ENTRYPOINT_KEY @ after
       \<and> (\<forall>i<length pre. \<not> prefix ENTRYPOINT_KEY (drop i (read_cmdline bytes)))
       \<longrightarrow> read_entrypoint (ReadOk bytes) bufsize =
            (if peek after = DQUOTE \<and> DQUOTE \<notin> set (tl after) then Inl Malformed
             else
               let val = (if peek after = DQUOTE then takeWhile (\<lambda>c. c \<noteq> DQUOTE) (tl after)
                          else takeWhile (\<lambda>c. c \<noteq> SPACE \<and> c \<noteq> NEWLINE) after)
               in if val = [] then Inl Empty
                  else if bufsize \<le> length val then Inl TooLong
                  else Inr val))
   \<and> read_entrypoint OpenFails bufsize = Inl OpenError
   \<and> read_entrypoint ReadFails bufsize = Inl ReadError"
proof -
  have "read_entrypoint OpenFails bufsize = Inl OpenError"
    and "read_entrypoint ReadFails bufsize = Inl ReadError"
    by (simp_all add: read_entrypoint_def)
  then show ?thesis
    using read_entrypoint_NotFound [of bytes bufsize]
      first_occurrence_exists [of "read_cmdline bytes" ENTRYPOINT_KEY]
      read_entrypoint_found [of bytes pre after bufsize]
    by blast
qed

text \<open>
  C3 as stated fails: when \<^verbatim>\<open>/proc/cmdline\<close> cannot be opened, \<^verbatim>\<open>read_entrypoint\<close>
  fails, and the failure is none of NotFound, Malformed, Empty and TooLong.
\<close>

theorem read_entrypoint_open_failure:
  "read_entrypoint OpenFails MAX_ENTRYPOINT_LEN = Inl OpenError
   \<and> OpenError \<notin> {NotFound, Malformed, Empty, TooLong}"
  by (simp add: read_entrypoint_def)

text \<open>One command line for each outcome.\<close>

theorem read_entrypoint_outcomes_witness:
  "read_entrypoint (ReadOk ''ro quiet'') MAX_ENTRYPOINT_LEN = Inl NotFound
   \<and> read_entrypoint (ReadOk (''ro kerf.entrypoint='' @ [DQUOTE] @ ''/bin/sh -c'')) MAX_ENTRYPOINT_LEN
       = Inl Malformed
   \<and> read_entrypoint (ReadOk ''ro kerf.entrypoint= quiet'') MAX_ENTRYPOINT_LEN = Inl Empty
   \<and> read_entrypoint (ReadOk ''ro kerf.entrypoint=/bin/sh quiet'') 7 = Inl TooLong
   \<and> read_entrypoint (ReadOk ''ro kerf.entrypoint=/bin/sh quiet'') 8 = Inr ''/bin/sh''
   \<and> read_entrypoint (ReadOk (''ro kerf.entrypoint='' @ [DQUOTE] @ ''/bin/sh -c ls'' @ [DQUOTE] @ '' quiet''))
        MAX_ENTRYPOINT_LEN = Inr ''/bin/sh -c ls''"
proof -
  have cl: "read_cmdline (''ro '' @ ENTRYPOINT_KEY @ after) = ''ro '' @ ENTRYPOINT_KEY @ after"
    if "after \<in> {[DQUOTE] @ ''/bin/sh -c'', '' quiet'', ''/bin/sh quiet'',
         [DQUOTE] @ ''/bin/sh -c ls'' @ [DQUOTE] @ '' quiet''}" for after
    using that
    by (auto simp: read_cmdline_def c_str_def MAX_CMDLINE_LEN_def ENTRYPOINT_KEY_def)
  have first: "\<forall>i<length ''ro ''.
      \<not> prefix ENTRYPOINT_KEY (drop i (read_cmdline (''ro '' @ ENTRYPOINT_KEY @ after)))"
    if "after \<in> {[DQUOTE] @ ''/bin/sh -c'', '' quiet'', ''/bin/sh quiet'',
         [DQUOTE] @ ''/bin/sh -c ls'' @ [DQUOTE] @ '' quiet''}" for after
    unfolding cl [OF that] by (simp add: ENTRYPOINT_KEY_def All_less_Suc)
  have found: "read_entrypoint (ReadOk (''ro '' @ ENTRYPOINT_KEY @ after)) bufsize =
            (if peek after = DQUOTE \<and> DQUOTE \<notin> set (tl after) then Inl Malformed
             else
               let val = (if peek after = DQUOTE then takeWhile (\<lambda>c. c \<noteq> DQUOTE) (tl after)
                          else takeWhile (\<lambda>c. c \<noteq> SPACE \<and> c \<noteq> NEWLINE) after)
               in if val = [] then Inl Empty
                  else if bufsize \<le> length val then Inl TooLong
                  else Inr val)"
    if "after \<in> {[DQUOTE] @ ''/bin/sh -c'', '' quiet'', ''/bin/sh quiet'',
         [DQUOTE] @ ''/bin/sh -c ls'' @ [DQUOTE] @ '' quiet''}" for after bufsize
    using read_entrypoint_outcomes [of "''ro '' @ ENTRYPOINT_KEY @ after" bufsize "''ro ''" after]
      cl [OF that] first [OF that]
    by blast
  have absent: "\<forall>i\<le>length (read_cmdline ''ro quiet'').
      \<not> prefix ENTRYPOINT_KEY (drop i (read_cmdline ''ro quiet''))"
    by (simp add: read_cmdline_def c_str_def MAX_CMDLINE_LEN_def ENTRYPOINT_KEY_def All_less_Suc
        le_Suc_eq all_conj_distrib)
  have "read_entrypoint (ReadOk ''ro quiet'') MAX_ENTRYPOINT_LEN = Inl NotFound"
    using read_entrypoint_outcomes [of "''ro quiet''" MAX_ENTRYPOINT_LEN] absent by blast
  moreover have "read_entrypoint (ReadOk (''ro kerf.entrypoint='' @ [DQUOTE] @ ''/bin/sh -c''))
      MAX_ENTRYPOINT_LEN = Inl Malformed"
    using found [of "[DQUOTE] @ ''/bin/sh -c''" MAX_ENTRYPOINT_LEN]
    by (simp add: ENTRYPOINT_KEY_def)
  moreover have "read_entrypoint (ReadOk ''ro kerf.entrypoint= quiet'') MAX_ENTRYPOINT_LEN = Inl Empty"
    using found [of "'' quiet''" MAX_ENTRYPOINT_LEN]
    by (simp add: ENTRYPOINT_KEY_def)
  moreover have "read_entrypoint (ReadOk ''ro kerf.entrypoint=/bin/sh quiet'') 7 = Inl TooLong"
    using found [of "''/bin/sh quiet''" 7]
    by (simp add: ENTRYPOINT_KEY_def)
  moreover have "read_entrypoint (ReadOk ''ro kerf.entrypoint=/bin/sh quiet'') 8 = Inr ''/bin/sh''"
    using found [of "''/bin/sh quiet''" 8]
    by (simp add: ENTRYPOINT_KEY_def)
  moreover have "read_entrypoint (ReadOk (''ro kerf.entrypoint='' @ [DQUOTE] @ ''/bin/sh -c ls''
      @ [DQUOTE] @ '' quiet'')) MAX_ENTRYPOINT_LEN = Inr ''/bin/sh -c ls''"
    using found [of "[DQUOTE] @ ''/bin/sh -c ls'' @ [DQUOTE] @ '' quiet''" MAX_ENTRYPOINT_LEN]
    by (simp add: ENTRYPOINT_KEY_def MAX_ENTRYPOINT_LEN_def)
  ultimately show ?thesis
    by simp
qed

section \<open>The tokenizer refines its specification\<close>

lemma skip_ws_eq: "skip_ws front s = (front @ takeWhile is_blank s, dropWhile is_blank s)"
  by (induction front s rule: skip_ws.induct) (auto simp: is_blank_def)

lemma scan_arg_spec:
  "scan_arg in_quote quote_char front s = (in_quote2, quote_char2, front2, rest2) \<Longrightarrow>
     rest2 = snd (arg_spec (if in_quote then Some quote_char else None) s)
     \<and> (\<exists>fin. front2 = front @ fst (arg_spec (if in_quote then Some quote_char else None) s) @ fin
           \<and> (fin = [NUL] \<and> \<not> in_quote2 \<or> fin = [] \<and> rest2 = []))"
proof (induction in_quote quote_char front s rule: scan_arg.induct)
  case (1 in_quote quote_char front)
  then show ?case by auto
next
  case (2 in_quote quote_char front c cs)
  show ?case
  proof (cases in_quote)
    case True
    show ?thesis
    proof (cases "c = quote_char")
      case same: True
      then show ?thesis
        using 2 True by auto
    next
      case False
      then show ?thesis
        using 2 True by (auto split: prod.splits)
    qed
  next
    case unquoted: False
    show ?thesis
    proof (cases "c = DQUOTE \<or> c = SQUOTE")
      case True
      then show ?thesis
        using 2 unquoted by (auto simp: is_quote_def)
    next
      case no_quote: False
      show ?thesis
      proof (cases "c = SPACE \<or> c = TAB")
        case True
        then show ?thesis
          using 2 unquoted no_quote by (auto simp: is_quote_def is_blank_def)
      next
        case False
        then show ?thesis
          using 2 unquoted no_quote
          by (auto simp: is_quote_def is_blank_def split: prod.splits)
      qed
    qed
  qed
qed

lemma arg_spec_subset:
  "set (fst (arg_spec mode s)) \<subseteq> set s \<and> set (snd (arg_spec mode s)) \<subseteq> set s"
  by (induction mode s rule: arg_spec.induct) (auto split: prod.splits)

lemma c_str_terminated: "NUL \<notin> set t \<Longrightarrow> c_str (t @ NUL # tail) = t"
  by (induction t) (auto simp: c_str_def)

lemma c_str_append_closed: "NUL \<in> set a \<Longrightarrow> c_str (a @ b) = c_str a"
  by (induction a) (auto simp: c_str_def)

lemma str_at_closed:
  "p \<le> length front \<Longrightarrow> NUL \<in> set (drop p front) \<Longrightarrow> str_at (front @ tail) p = str_at front p"
  by (simp add: str_at_def c_str_append_closed)

lemma str_at_new: "NUL \<notin> set arg \<Longrightarrow> str_at (front @ arg @ NUL # tail) (length front) = arg"
  by (simp add: str_at_def c_str_terminated)

lemma tokenize_spec_blank: "dropWhile is_blank s = [] \<Longrightarrow> tokenize_spec s = []"
  by (subst tokenize_spec.simps) (simp del: dropWhile_eq_Nil_conv)

lemma tokenize_spec_arg:
  "dropWhile is_blank s = c # cs \<Longrightarrow> arg_spec None (c # cs) = (arg, left) \<Longrightarrow>
     tokenize_spec s = arg # tokenize_spec left"
  by (subst tokenize_spec.simps) simp

lemma parse_loop_stop:
  "\<not> (s \<noteq> [] \<and> int argc < m - 1) \<Longrightarrow>
     parse_loop m argc argv in_quote q front s = (argc, argv, front, s)"
  by (subst parse_loop.simps) auto

lemma parse_loop_blank:
  "s \<noteq> [] \<Longrightarrow> int argc < m - 1 \<Longrightarrow> dropWhile is_blank s = [] \<Longrightarrow>
     parse_loop m argc argv in_quote q front s = (argc, argv, front @ takeWhile is_blank s, [])"
  by (subst parse_loop.simps) (simp add: skip_ws_eq)

lemma parse_loop_step:
  "s \<noteq> [] \<Longrightarrow> int argc < m - 1 \<Longrightarrow> dropWhile is_blank s = c # cs \<Longrightarrow>
   scan_arg in_quote q (front @ takeWhile is_blank s) (c # cs) = (in_quote2, q2, front2, rest2) \<Longrightarrow>
     parse_loop m argc argv in_quote q front s =
       parse_loop m (argc + 1) (argv(argc := Some (length (front @ takeWhile is_blank s))))
         in_quote2 q2 front2 rest2"
  by (subst parse_loop.simps) (simp add: skip_ws_eq)

lemma parse_loop_tokens:
  assumes "\<not> in_quote" and "NUL \<notin> set s"
    and "\<forall>i<argc. \<exists>p. argv i = Some p \<and> p \<le> length front \<and> NUL \<in> set (drop p front)"
    and "parse_loop m argc argv in_quote q front s = (argc2, argv2, front2, rest2)"
  shows "map (\<lambda>i. map_option (str_at (front2 @ rest2 @ [NUL])) (argv2 i)) [0..<argc2]
       = map (\<lambda>i. map_option (str_at front) (argv i)) [0..<argc]
         @ map Some (take (nat (m - 1) - argc) (tokenize_spec s))"
  using assms
proof (induction m argc argv in_quote q front s rule: parse_loop.induct)
  case (1 m argc argv in_quote q front s)
  note closed = "1.prems"(3) and result = "1.prems"(4)
  have old: "map (\<lambda>i. map_option (str_at (front @ tail)) (argv i)) [0..<argc]
      = map (\<lambda>i. map_option (str_at front) (argv i)) [0..<argc]" for tail
  proof (rule map_cong [OF refl])
    fix i assume "i \<in> set [0..<argc]"
    then obtain p where "argv i = Some p" "p \<le> length front" "NUL \<in> set (drop p front)"
      using closed by auto
    then show "map_option (str_at (front @ tail)) (argv i) = map_option (str_at front) (argv i)"
      by (simp add: str_at_closed)
  qed
  show ?case
  proof (cases "s \<noteq> [] \<and> int argc < m - 1")
    case False
    then have eqs: "argc2 = argc" "argv2 = argv" "front2 = front" "rest2 = s"
      using result parse_loop_stop [of s argc m argv in_quote q front] by simp_all
    have toks: "take (nat (m - 1) - argc) (tokenize_spec s) = []"
    proof (cases "s = []")
      case True
      then show ?thesis by (simp add: tokenize_spec_blank)
    next
      case nonempty: False
      with False have "nat (m - 1) - argc = 0" by simp
      then show ?thesis by simp
    qed
    show ?thesis
      unfolding eqs toks using old [of "s @ [NUL]"] by simp
  next
    case True
    then have s: "s \<noteq> []" and room: "int argc < m - 1"
      by simp_all
    let ?bl = "takeWhile is_blank s"
    show ?thesis
    proof (cases "dropWhile is_blank s")
      case Nil
      then have eqs: "argc2 = argc" "argv2 = argv" "front2 = front @ ?bl" "rest2 = []"
        using result parse_loop_blank [OF s room Nil, of argv in_quote q front] by simp_all
      show ?thesis
        unfolding eqs tokenize_spec_blank [OF Nil] using old [of "?bl @ [NUL]"] by simp
    next
      case (Cons c cs)
      obtain in_quote' q' front' rest' where
        scan: "scan_arg in_quote q (front @ ?bl) (c # cs) = (in_quote', q', front', rest')"
        by (cases "scan_arg in_quote q (front @ ?bl) (c # cs)") auto
      obtain arg left where spec: "arg_spec None (c # cs) = (arg, left)"
        by (cases "arg_spec None (c # cs)") auto
      have sub: "set (c # cs) \<subseteq> set s"
        using set_dropWhileD [of _ is_blank s] Cons by auto
      have nul_arg: "NUL \<notin> set arg" and nul_left: "NUL \<notin> set left"
        using arg_spec_subset [of None "c # cs"] spec sub "1.prems"(2) by auto
      from scan_arg_spec [OF scan] obtain fin where
        rest': "rest' = left" and front': "front' = (front @ ?bl) @ arg @ fin"
        and fin: "fin = [NUL] \<and> \<not> in_quote' \<or> fin = [] \<and> rest' = []"
        using spec "1.prems"(1) by auto
      let ?argv = "argv(argc := Some (length (front @ ?bl)))"
      have step: "parse_loop m (argc + 1) ?argv in_quote' q' front' rest'
          = (argc2, argv2, front2, rest2)"
        using parse_loop_step [OF s room Cons scan, of argv] result by simp
      have toks: "take (nat (m - 1) - argc) (tokenize_spec s)
          = arg # take (nat (m - 1) - (argc + 1)) (tokenize_spec left)"
      proof -
        have "nat (m - 1) - argc = Suc (nat (m - 1) - (argc + 1))"
          using room by simp
        then show ?thesis
          by (simp add: tokenize_spec_arg [OF Cons spec])
      qed
      from fin show ?thesis
      proof
        assume ended: "fin = [NUL] \<and> \<not> in_quote'"
        have closed': "\<forall>i<argc + 1. \<exists>p. ?argv i = Some p \<and> p \<le> length front'
            \<and> NUL \<in> set (drop p front')"
        proof (intro allI impI)
          fix i assume "i < argc + 1"
          show "\<exists>p. ?argv i = Some p \<and> p \<le> length front' \<and> NUL \<in> set (drop p front')"
          proof (cases "i = argc")
            case True
            then show ?thesis
              using ended by (simp add: front')
          next
            case False
            with \<open>i < argc + 1\<close> have "i < argc" by simp
            then obtain p where "argv i = Some p" "p \<le> length front" "NUL \<in> set (drop p front)"
              using closed by auto
            then show ?thesis
              using False by (auto simp: front')
          qed
        qed
        have "map (\<lambda>i. map_option (str_at (front2 @ rest2 @ [NUL])) (argv2 i)) [0..<argc2]
            = map (\<lambda>i. map_option (str_at front') (?argv i)) [0..<argc + 1]
              @ map Some (take (nat (m - 1) - (argc + 1)) (tokenize_spec rest'))"
        proof (rule "1.IH" [of "front @ ?bl" "c # cs" in_quote' "(q', front', rest')" q'
              "(front', rest')" front' rest'])
          show "s \<noteq> [] \<and> int argc < m - 1"
            by fact
          show "(front @ ?bl, c # cs) = skip_ws front s"
            by (simp add: skip_ws_eq Cons)
          show "(in_quote', q', front', rest') = scan_arg in_quote q (front @ ?bl) (c # cs)"
            by (rule scan [symmetric])
          show "\<not> in_quote'"
            using ended by simp
          show "NUL \<notin> set rest'"
            using nul_left rest' by simp
          show "\<forall>i<argc + 1. \<exists>p. ?argv i = Some p \<and> p \<le> length front'
              \<and> NUL \<in> set (drop p front')"
            by (rule closed')
          show "parse_loop m (argc + 1) ?argv in_quote' q' front' rest'
              = (argc2, argv2, front2, rest2)"
            by (rule step)
        qed simp_all
        moreover have "map (\<lambda>i. map_option (str_at front') (?argv i)) [0..<argc + 1]
            = map (\<lambda>i. map_option (str_at front) (argv i)) [0..<argc] @ [Some arg]"
        proof -
          have "map (\<lambda>i. map_option (str_at front') (?argv i)) [0..<argc]
              = map (\<lambda>i. map_option (str_at (front @ ?bl @ arg @ fin)) (argv i)) [0..<argc]"
            by (rule map_cong [OF refl]) (simp add: front')
          moreover have "str_at front' (length (front @ ?bl)) = arg"
            using str_at_new [OF nul_arg, of "front @ ?bl" "[]"] ended by (simp add: front')
          ultimately show ?thesis
            using old [of "?bl @ arg @ fin"] by simp
        qed
        ultimately show ?thesis
          by (simp add: toks rest')
      next
        assume last: "fin = [] \<and> rest' = []"
        then have "(argc2, argv2, front2, rest2) = (argc + 1, ?argv, front', [])"
          using step parse_loop_stop [of "[]" "argc + 1" m ?argv in_quote' q' front'] by simp
        moreover have "map (\<lambda>i. map_option (str_at (front' @ [NUL])) (?argv i)) [0..<argc + 1]
            = map (\<lambda>i. map_option (str_at front) (argv i)) [0..<argc] @ [Some arg]"
        proof -
          have "map (\<lambda>i. map_option (str_at (front' @ [NUL])) (?argv i)) [0..<argc]
              = map (\<lambda>i. map_option (str_at (front @ ?bl @ arg @ [NUL])) (argv i)) [0..<argc]"
            using last by (intro map_cong [OF refl]) (simp add: front')
          moreover have "str_at (front' @ [NUL]) (length (front @ ?bl)) = arg"
            using str_at_new [OF nul_arg, of "front @ ?bl" "[]"] last by (simp add: front')
          ultimately show ?thesis
            using old [of "?bl @ arg @ [NUL]"] by simp
        qed
        moreover have "tokenize_spec left = []"
          using last rest' by (simp add: tokenize_spec_blank)
        ultimately show ?thesis
          by (simp add: toks)
      qed
    qed
  qed
qed

lemma parse_loop_frame:
  "parse_loop m argc argv in_quote q front s = (argc2, argv2, front2, rest2) \<Longrightarrow>
     argc \<le> argc2 \<and> int argc2 \<le> max (int argc) (m - 1)
     \<and> (\<forall>i. i < argc \<or> argc2 \<le> i \<longrightarrow> argv2 i = argv i)"
proof (induction m argc argv in_quote q front s rule: parse_loop.induct)
  case (1 m argc argv in_quote q front s)
  show ?case
  proof (cases "s \<noteq> [] \<and> int argc < m - 1")
    case False
    then show ?thesis
      using "1.prems" parse_loop_stop [of s argc m argv in_quote q front] by auto
  next
    case True
    then have s: "s \<noteq> []" and room: "int argc < m - 1"
      by simp_all
    show ?thesis
    proof (cases "dropWhile is_blank s")
      case Nil
      then show ?thesis
        using "1.prems" parse_loop_blank [OF s room Nil, of argv in_quote q front] by auto
    next
      case (Cons c cs)
      obtain in_quote' q' front' rest' where
        scan: "scan_arg in_quote q (front @ takeWhile is_blank s) (c # cs)
          = (in_quote', q', front', rest')"
        by (cases "scan_arg in_quote q (front @ takeWhile is_blank s) (c # cs)") auto
      let ?argv = "argv(argc := Some (length (front @ takeWhile is_blank s)))"
      have step: "parse_loop m (argc + 1) ?argv in_quote' q' front' rest'
          = (argc2, argv2, front2, rest2)"
        using parse_loop_step [OF s room Cons scan, of argv] "1.prems" by simp
      have "argc + 1 \<le> argc2 \<and> int argc2 \<le> max (int (argc + 1)) (m - 1)
          \<and> (\<forall>i. i < argc + 1 \<or> argc2 \<le> i \<longrightarrow> argv2 i = ?argv i)"
      proof (rule "1.IH" [of "front @ takeWhile is_blank s" "c # cs" in_quote'
            "(q', front', rest')" q' "(front', rest')" front' rest'])
        show "s \<noteq> [] \<and> int argc < m - 1"
          by fact
        show "(front @ takeWhile is_blank s, c # cs) = skip_ws front s"
          by (simp add: skip_ws_eq Cons)
        show "(in_quote', q', front', rest')
            = scan_arg in_quote q (front @ takeWhile is_blank s) (c # cs)"
          by (rule scan [symmetric])
        show "parse_loop m (argc + 1) ?argv in_quote' q' front' rest'
            = (argc2, argv2, front2, rest2)"
          by (rule step)
      qed simp_all
      then show ?thesis
        using room by auto
    qed
  qed
qed

lemma c_str_no_NUL: "NUL \<notin> set (c_str s)"
  using set_takeWhileD [of NUL "\<lambda>c. c \<noteq> NUL" s] by (auto simp: c_str_def)

lemma parse_args_tokens:
  "args_of (parse_args s argv m) = map Some (take (nat (m - 1)) (tokenize_spec (c_str s)))"
proof -
  obtain argc argv' front rest where
    loop: "parse_loop m 0 argv False NUL [] (c_str s) = (argc, argv', front, rest)"
    by (cases "parse_loop m 0 argv False NUL [] (c_str s)") auto
  have "map (\<lambda>i. map_option (str_at (front @ rest @ [NUL])) (argv' i)) [0..<argc]
      = map (\<lambda>i. map_option (str_at []) (argv i)) [0..<0]
        @ map Some (take (nat (m - 1) - 0) (tokenize_spec (c_str s)))"
    by (rule parse_loop_tokens [OF _ c_str_no_NUL _ loop]) simp_all
  moreover have "args_of (parse_args s argv m)
      = map (\<lambda>i. map_option (str_at (front @ rest @ [NUL])) (argv' i)) [0..<argc]"
    by (simp add: args_of_def parse_args_def loop)
  ultimately show ?thesis
    by simp
qed

lemma ret_parse_args:
  "ret (parse_args s argv m) = int (min (nat (m - 1)) (length (tokenize_spec (c_str s))))"
proof -
  have "length (args_of (parse_args s argv m)) = nat (ret (parse_args s argv m))"
    by (simp add: args_of_def)
  moreover have "0 \<le> ret (parse_args s argv m)"
    by (simp add: parse_args_def split: prod.splits)
  ultimately show ?thesis
    using arg_cong [OF parse_args_tokens [of s argv m], of length] by simp
qed

lemma argv_out_frame:
  "ret (parse_args s argv m) < int i \<Longrightarrow> argv_out (parse_args s argv m) i = argv i"
proof -
  assume after: "ret (parse_args s argv m) < int i"
  obtain argc argv' front rest where
    loop: "parse_loop m 0 argv False NUL [] (c_str s) = (argc, argv', front, rest)"
    by (cases "parse_loop m 0 argv False NUL [] (c_str s)") auto
  from parse_loop_frame [OF loop] have "\<forall>i. argc \<le> i \<longrightarrow> argv' i = argv i"
    by simp
  then show ?thesis
    using after by (simp add: parse_args_def loop)
qed

lemma tokenize_spec_skip: "is_blank b \<Longrightarrow> tokenize_spec (b # s) = tokenize_spec s"
  by (subst tokenize_spec.simps, subst (2) tokenize_spec.simps) simp

lemma arg_spec_unquoted:
  "\<forall>c\<in>set s. \<not> is_quote c \<Longrightarrow>
     arg_spec None s = (takeWhile (\<lambda>c. \<not> is_blank c) s, tl (dropWhile (\<lambda>c. \<not> is_blank c) s))"
  by (induction s) auto

lemma tokenize_spec_tl_blank:
  "d = [] \<or> is_blank (hd d) \<Longrightarrow> tokenize_spec (tl d) = tokenize_spec d"
  by (cases d) (auto simp: tokenize_spec_skip)

lemma tokenize_spec_unquoted:
  "\<forall>c\<in>set s. \<not> is_quote c \<Longrightarrow> tokenize_spec s = blank_split s"
proof (induction s rule: blank_split.induct)
  case (1 s)
  show ?case
  proof (cases "dropWhile is_blank s")
    case Nil
    then show ?thesis
      by (subst blank_split.simps) (simp add: tokenize_spec_blank del: dropWhile_eq_Nil_conv)
  next
    case (Cons c cs)
    let ?d = "dropWhile (\<lambda>c. \<not> is_blank c) (c # cs)"
    have sub: "set (c # cs) \<subseteq> set s"
      using set_dropWhileD [of _ is_blank s] Cons by auto
    then have free: "\<forall>c\<in>set (c # cs). \<not> is_quote c"
      using "1.prems" by auto
    have "set ?d \<subseteq> set (c # cs)"
      by (rule subsetI) (rule set_dropWhileD)
    then have "\<forall>c\<in>set ?d. \<not> is_quote c"
      using free by auto
    then have IH: "tokenize_spec ?d = blank_split ?d"
      using "1.IH" [OF Cons] by simp
    have "?d = [] \<or> is_blank (hd ?d)"
    proof (cases "?d = []")
      case False
      then show ?thesis
        using hd_dropWhile [OF False] by simp
    qed simp
    then have "tokenize_spec (tl ?d) = blank_split ?d"
      using IH by (simp only: tokenize_spec_tl_blank)
    moreover have "tokenize_spec s
        = takeWhile (\<lambda>c. \<not> is_blank c) (c # cs) # tokenize_spec (tl ?d)"
      using tokenize_spec_arg [OF Cons] arg_spec_unquoted [OF free] by simp
    moreover have "blank_split s = takeWhile (\<lambda>c. \<not> is_blank c) (c # cs) # blank_split ?d"
      by (subst blank_split.simps) (simp add: Cons)
    ultimately show ?thesis
      by simp
  qed
qed

lemma tokenize_spec_Nil_iff: "tokenize_spec s = [] \<longleftrightarrow> (\<forall>c\<in>set s. is_blank c)"
proof (cases "dropWhile is_blank s")
  case Nil
  then show ?thesis
    using tokenize_spec_blank [OF Nil] by simp
next
  case (Cons c cs)
  obtain arg left where "arg_spec None (c # cs) = (arg, left)"
    by (cases "arg_spec None (c # cs)") auto
  then have "tokenize_spec s \<noteq> []"
    using tokenize_spec_arg [OF Cons] by simp
  moreover have "\<not> (\<forall>c\<in>set s. is_blank c)"
    using Cons by (metis dropWhile_eq_Nil_conv list.distinct(1))
  ultimately show ?thesis
    by simp
qed

text \<open>
  C8. Tokenizer shape. For every input, initial argument vector and \<^verbatim>\<open>max_args\<close>, the
  strings that \<^verbatim>\<open>parse_args\<close> leaves in the argument vector are the first
  \<^verbatim>\<open>max_args - 1\<close> arguments of the input as section 4.4 of the specification reads
  them; for an input without quote characters these are its maximal runs of characters
  other than space and tab. The returned count is the number of these strings, at most
  \<^verbatim>\<open>max_args - 1\<close> and never negative. The slot at the count holds NULL, the slots
  below it hold pointers, and the slots above it are left as they were. The count is 0
  exactly when \<^verbatim>\<open>max_args\<close> is at most 1 or the input holds nothing but spaces and
  tabs, and it is returned like any other count.
\<close>

theorem tokenizer_shape:
  "args_of (parse_args s argv m) = map Some (take (nat (m - 1)) (tokenize_spec (c_str s)))
   \<and> (DQUOTE \<notin> set (c_str s) \<and> SQUOTE \<notin> set (c_str s) \<longrightarrow>
        args_of (parse_args s argv m) = map Some (take (nat (m - 1)) (blank_split (c_str s))))
   \<and> ret (parse_args s argv m) = int (min (nat (m - 1)) (length (tokenize_spec (c_str s))))
   \<and> 0 \<le> ret (parse_args s argv m)
   \<and> ret (parse_args s argv m) \<le> max 0 (m - 1)
   \<and> argv_out (parse_args s argv m) (nat (ret (parse_args s argv m))) = None
   \<and> (\<forall>i. int i < ret (parse_args s argv m) \<longrightarrow> argv_out (parse_args s argv m) i \<noteq> None)
   \<and> (\<forall>i. ret (parse_args s argv m) < int i \<longrightarrow> argv_out (parse_args s argv m) i = argv i)
   \<and> (ret (parse_args s argv m) = 0 \<longleftrightarrow> m \<le> 1 \<or> (\<forall>c\<in>set (c_str s). c = SPACE \<or> c = TAB))"
proof -
  let ?r = "parse_args s argv m"
  note toks = parse_args_tokens [of s argv m]
  note count = ret_parse_args [of s argv m]
  have plain: "args_of ?r = map Some (take (nat (m - 1)) (blank_split (c_str s)))"
    if "DQUOTE \<notin> set (c_str s) \<and> SQUOTE \<notin> set (c_str s)"
  proof -
    have "\<forall>c\<in>set (c_str s). \<not> is_quote c"
      using that by (auto simp: is_quote_def)
    then show ?thesis
      using toks by (simp add: tokenize_spec_unquoted)
  qed
  have bounds: "0 \<le> ret ?r" "ret ?r \<le> max 0 (m - 1)"
    using count by simp_all
  have sentinel: "argv_out ?r (nat (ret ?r)) = None"
    by (simp add: parse_args_def split: prod.splits)
  have filled: "argv_out ?r i \<noteq> None" if "int i < ret ?r" for i
  proof -
    have i: "i < length (args_of ?r)"
      using that by (simp add: args_of_def)
    then have "args_of ?r ! i = map_option (str_at (buf ?r)) (argv_out ?r i)"
      by (simp add: args_of_def)
    moreover have "args_of ?r ! i \<noteq> None"
      using i unfolding toks by simp
    ultimately show ?thesis
      by auto
  qed
  have frame: "argv_out ?r i = argv i" if "ret ?r < int i" for i
    using that by (rule argv_out_frame)
  have zero: "ret ?r = 0 \<longleftrightarrow> m \<le> 1 \<or> (\<forall>c\<in>set (c_str s). c = SPACE \<or> c = TAB)"
  proof -
    have "ret ?r = 0 \<longleftrightarrow> nat (m - 1) = 0 \<or> tokenize_spec (c_str s) = []"
      unfolding count by (auto simp: min_def)
    then show ?thesis
      by (auto simp: tokenize_spec_Nil_iff is_blank_def)
  qed
  show ?thesis
    using toks plain count bounds sentinel filled frame zero by blast
qed

text \<open>Four words and room for two; and an input of blanks.\<close>

theorem tokenizer_shape_witness:
  "args_of (parse_args ''  x  y z w '' (\<lambda>i. Some 7) 3) = [Some ''x'', Some ''y'']
   \<and> ret (parse_args ''  x  y z w '' (\<lambda>i. Some 7) 3) = 2
   \<and> argv_out (parse_args ''  x  y z w '' (\<lambda>i. Some 7) 3) 2 = None
   \<and> argv_out (parse_args ''  x  y z w '' (\<lambda>i. Some 7) 3) 3 = Some 7
   \<and> ret (parse_args [SPACE, TAB, SPACE] (\<lambda>i. Some 7) 3) = 0"
proof -
  let ?s = "''  x  y z w ''"
  note inst = tokenizer_shape [of ?s "\<lambda>i. Some 7" 3]
  have c: "c_str ?s = ?s"
    by (simp add: c_str_def)
  have words: "blank_split ?s = [''x'', ''y'', ''z'', ''w'']"
    by (simp add: blank_split.simps is_blank_def)
  have free: "DQUOTE \<notin> set (c_str ?s) \<and> SQUOTE \<notin> set (c_str ?s)"
    by (simp add: c)
  have "args_of (parse_args ?s (\<lambda>i. Some 7) 3)
      = map Some (take (nat (3 - 1)) (blank_split (c_str ?s)))"
    using inst free by blast
  then have args: "args_of (parse_args ?s (\<lambda>i. Some 7) 3) = [Some ''x'', Some ''y'']"
    by (simp add: c words)
  have "0 \<le> ret (parse_args ?s (\<lambda>i. Some 7) 3)"
    using inst by blast
  moreover have "length (args_of (parse_args ?s (\<lambda>i. Some 7) 3))
      = nat (ret (parse_args ?s (\<lambda>i. Some 7) 3))"
    by (simp add: args_of_def)
  ultimately have two: "ret (parse_args ?s (\<lambda>i. Some 7) 3) = 2"
    unfolding args by simp
  have "argv_out (parse_args ?s (\<lambda>i. Some 7) 3)
      (nat (ret (parse_args ?s (\<lambda>i. Some 7) 3))) = None"
    using inst by blast
  then have "argv_out (parse_args ?s (\<lambda>i. Some 7) 3) 2 = None"
    unfolding two by simp
  moreover have "ret (parse_args ?s (\<lambda>i. Some 7) 3) < int 3
      \<longrightarrow> argv_out (parse_args ?s (\<lambda>i. Some 7) 3) 3 = Some 7"
    using inst by blast
  then have "argv_out (parse_args ?s (\<lambda>i. Some 7) 3) 3 = Some 7"
    unfolding two by simp
  moreover have "ret (parse_args [SPACE, TAB, SPACE] (\<lambda>i. Some 7) 3) = 0
      \<longleftrightarrow> (3::int) \<le> 1 \<or> (\<forall>c\<in>set (c_str [SPACE, TAB, SPACE]). c = SPACE \<or> c = TAB)"
    using tokenizer_shape [of "[SPACE, TAB, SPACE]" "\<lambda>i. Some 7" 3] by blast
  then have "ret (parse_args [SPACE, TAB, SPACE] (\<lambda>i. Some 7) 3) = 0"
    by (simp add: c_str_def)
  ultimately show ?thesis
    using args two by simp
qed

lemma scan_arg_quoted_to_end:
  "q \<notin> set v \<Longrightarrow> scan_arg True q front v = (True, q, front @ v, [])"
  by (induction v arbitrary: front) auto

lemma scan_arg_unterminated:
  assumes "q = DQUOTE \<or> q = SQUOTE" and "q \<notin> set v"
    and "\<forall>c\<in>set u. \<not> is_quote c \<and> \<not> is_blank c"
  shows "scan_arg False quote_char front (u @ q # v) = (True, q, front @ u @ v, [])"
  using assms(3)
proof (induction u arbitrary: front)
  case Nil
  then show ?case
    using assms(1,2) by (auto simp: scan_arg_quoted_to_end)
next
  case (Cons c u)
  then have "scan_arg False quote_char (front @ [c]) (u @ q # v)
      = (True, q, (front @ [c]) @ u @ v, [])"
    by simp
  then show ?case
    using Cons.prems by (auto simp: is_quote_def is_blank_def)
qed

lemma arg_spec_quoted_to_end: "q \<notin> set v \<Longrightarrow> arg_spec (Some q) v = (v, [])"
  by (induction v) auto

lemma arg_spec_unterminated:
  assumes "is_quote q" and "q \<notin> set v" and "\<forall>c\<in>set u. \<not> is_quote c \<and> \<not> is_blank c"
  shows "arg_spec None (u @ q # v) = (u @ v, [])"
  using assms(3)
proof (induction u)
  case Nil
  then show ?case
    using assms(1,2) by (simp add: arg_spec_quoted_to_end)
next
  case (Cons c u)
  then show ?case by simp
qed

lemma tokenize_spec_unterminated:
  assumes "is_quote q" and "q \<notin> set v" and "\<forall>c\<in>set u. \<not> is_quote c \<and> \<not> is_blank c"
  shows "tokenize_spec (u @ q # v) = [u @ v]"
proof -
  have "\<not> is_blank q"
    using assms(1) by (auto simp: is_quote_def is_blank_def)
  then have "dropWhile is_blank (u @ q # v) = u @ q # v"
    using assms(3) by (cases u) auto
  moreover obtain c cs where "u @ q # v = c # cs"
    by (cases "u @ q # v") auto
  ultimately show ?thesis
    using tokenize_spec_arg [of "u @ q # v" c cs "u @ v" "[]"]
      arg_spec_unterminated [OF assms] tokenize_spec_blank [of "[]"]
    by simp
qed

lemma arg_spec_append:
  "\<forall>c\<in>set x. \<not> is_quote c \<Longrightarrow> \<exists>c\<in>set x. is_blank c \<Longrightarrow>
     arg_spec None (x @ b) = (fst (arg_spec None x), snd (arg_spec None x) @ b)"
proof (induction x)
  case Nil
  then show ?case by simp
next
  case (Cons c x)
  show ?case
  proof (cases "is_blank c")
    case True
    then show ?thesis
      using Cons.prems(1) by simp
  next
    case False
    then have "\<exists>c\<in>set x. is_blank c"
      using Cons.prems(2) by auto
    then have "arg_spec None (x @ b) = (fst (arg_spec None x), snd (arg_spec None x) @ b)"
      using Cons by simp
    then show ?thesis
      using False Cons.prems(1) by (simp add: case_prod_beta)
  qed
qed

lemma tokenize_spec_append:
  "\<forall>c\<in>set a. \<not> is_quote c \<Longrightarrow> a = [] \<or> is_blank (last a) \<Longrightarrow>
     tokenize_spec (a @ b) = tokenize_spec a @ tokenize_spec b"
proof (induction a rule: tokenize_spec.induct)
  case (1 a)
  show ?case
  proof (cases "dropWhile is_blank a")
    case Nil
    then have "dropWhile is_blank (a @ b) = dropWhile is_blank b"
      by (simp add: dropWhile_append2)
    then have "tokenize_spec (a @ b) = tokenize_spec b"
      by (subst tokenize_spec.simps, subst (2) tokenize_spec.simps) simp
    then show ?thesis
      using tokenize_spec_blank [OF Nil] by simp
  next
    case (Cons c cs)
    obtain arg left where spec: "arg_spec None (c # cs) = (arg, left)"
      by (cases "arg_spec None (c # cs)") auto
    have a: "a = takeWhile is_blank a @ c # cs"
      using Cons by (metis takeWhile_dropWhile_id)
    have sub: "set (c # cs) \<subseteq> set a"
      using set_dropWhileD [of _ is_blank a] Cons by auto
    then have free: "\<forall>c\<in>set (c # cs). \<not> is_quote c"
      using "1.prems"(1) by auto
    have a_ne: "a \<noteq> []"
      using Cons by auto
    have "last a = last (c # cs)"
      by (subst a) simp
    then have blank_last: "is_blank (last (c # cs))"
      using "1.prems"(2) a_ne by simp
    then have has_blank: "\<exists>c\<in>set (c # cs). is_blank c"
      using last_in_set [of "c # cs"] by blast
    have left_sub: "set left \<subseteq> set (c # cs)"
      using arg_spec_subset [of None "c # cs"] spec by simp
    have left_eq: "left = tl (dropWhile (\<lambda>c. \<not> is_blank c) (c # cs))"
      using arg_spec_unquoted [OF free] spec by simp
    have left_last: "left = [] \<or> is_blank (last left)"
    proof (cases "left = []")
      case False
      let ?d = "dropWhile (\<lambda>c. \<not> is_blank c) (c # cs)"
      have d2: "tl ?d \<noteq> []"
        using False unfolding left_eq .
      then have d1: "?d \<noteq> []"
        by (metis tl_Nil)
      have "last (takeWhile (\<lambda>c. \<not> is_blank c) (c # cs) @ ?d) = last ?d"
        using d1 by (rule last_appendR)
      then have "last (c # cs) = last ?d"
        by (simp only: takeWhile_dropWhile_id)
      also have "\<dots> = last (tl ?d)"
        by (rule last_tl [symmetric]) (use d2 in blast)
      finally show ?thesis
        using blank_last left_eq by simp
    qed simp
    have IH: "tokenize_spec (left @ b) = tokenize_spec left @ tokenize_spec b"
      using "1.IH" [OF Cons spec [symmetric]] free left_sub left_last by auto
    have "\<not> is_blank c"
      using hd_dropWhile [of is_blank a] Cons by simp
    then have "dropWhile is_blank (takeWhile is_blank a @ c # (cs @ b))
        = dropWhile is_blank (takeWhile is_blank a) @ c # (cs @ b)"
      by (rule dropWhile_append3)
    moreover have "takeWhile is_blank a @ c # (cs @ b) = a @ b"
      using takeWhile_dropWhile_id [of is_blank a] unfolding Cons by simp
    moreover have "dropWhile is_blank (takeWhile is_blank a) = []"
      using set_takeWhileD [of _ is_blank a] by simp
    ultimately have "dropWhile is_blank (a @ b) = c # (cs @ b)"
      by simp
    moreover have "arg_spec None (c # (cs @ b)) = (arg, left @ b)"
      using arg_spec_append [OF free has_blank, of b] spec by simp
    ultimately have "tokenize_spec (a @ b) = arg # tokenize_spec (left @ b)"
      by (rule tokenize_spec_arg)
    then show ?thesis
      using tokenize_spec_arg [OF Cons spec] IH by simp
  qed
qed

lemma c_str_id: "NUL \<notin> set s \<Longrightarrow> c_str s = s"
  by (auto simp: c_str_def)

lemma parse_loop_step_nonempty:
  assumes "int argc < m - 1" and "dropWhile is_blank s = s'" and "s' \<noteq> []"
    and "scan_arg in_quote q (front @ takeWhile is_blank s) s' = (in_quote2, q2, front2, rest2)"
  shows "parse_loop m argc argv in_quote q front s =
       parse_loop m (argc + 1) (argv(argc := Some (length (front @ takeWhile is_blank s))))
         in_quote2 q2 front2 rest2"
proof -
  from assms(3) obtain c cs where s': "s' = c # cs"
    by (cases s') auto
  have "s \<noteq> []"
    using assms(2,3) by auto
  then show ?thesis
    using assms(1,2,4) unfolding s' by (rule parse_loop_step)
qed

lemma parse_args_unterminated_first:
  assumes q: "q = DQUOTE \<or> q = SQUOTE" and v: "q \<notin> set v"
    and u: "\<forall>c\<in>set u. \<not> is_quote c \<and> \<not> is_blank c"
    and nul: "NUL \<notin> set (u @ v)" and room: "1 < m"
  shows "buf (parse_args (u @ q # v) argv m) = u @ v @ [NUL]"
    and "argv_out (parse_args (u @ q # v) argv m) 0 = Some 0"
proof -
  let ?s = "u @ q # v"
  have c: "c_str ?s = ?s"
    using nul q by (intro c_str_id) auto
  have "\<not> is_blank q"
    using q by (auto simp: is_blank_def)
  then have drop: "dropWhile is_blank ?s = ?s" and take: "takeWhile is_blank ?s = []"
    using u by (cases u; simp)+
  have scan: "scan_arg False NUL ([] @ takeWhile is_blank ?s) ?s = (True, q, u @ v, [])"
    unfolding take using scan_arg_unterminated [OF q v u, of NUL "[]"] by simp
  have "parse_loop m 0 argv False NUL [] ?s
      = parse_loop m (0 + 1) (argv(0 := Some (length ([] @ takeWhile is_blank ?s)))) True q (u @ v) []"
    using room by (intro parse_loop_step_nonempty [OF _ drop _ scan]) simp_all
  also have "\<dots> = (1, argv(0 := Some 0), u @ v, [])"
    using parse_loop_stop [of "[]" 1 m "argv(0 := Some 0)" True q "u @ v"] by (simp add: take)
  finally have loop: "parse_loop m 0 argv False NUL [] ?s = (1, argv(0 := Some 0), u @ v, [])" .
  show "buf (parse_args ?s argv m) = u @ v @ [NUL]"
    and "argv_out (parse_args ?s argv m) 0 = Some 0"
    by (simp_all add: parse_args_def c loop)
qed

text \<open>
  C10. An unterminated quote is ordinary input. Let the input be \<open>a\<close>, text without
  quote characters that is empty or ends in a blank, then \<open>u\<close>, the start of an
  argument, then a quote character \<open>q\<close>, then \<open>v\<close>, in which \<open>q\<close> does not occur
  again; and let there be room for the arguments of \<open>a\<close> and one more. Then
  \<^verbatim>\<open>parse_args\<close> returns the arguments of \<open>a\<close> followed by the single argument
  \<open>u\<close> directly followed by \<open>v\<close>, blanks of \<open>v\<close> included, and the count is their
  number. The inner loop deletes the quote from the buffer and passes over all of \<open>v\<close>;
  when \<open>a\<close> is empty the buffer ends up as \<open>u\<close>, \<open>v\<close> and the terminator.
  \<^verbatim>\<open>read_entrypoint\<close>, in contrast, fails on a value that opens with a double quote
  and has no second one.
\<close>

theorem unterminated_quote:
  assumes q: "q = DQUOTE \<or> q = SQUOTE" and v: "q \<notin> set v"
    and a: "\<forall>c\<in>set a. \<not> is_quote c" "a = [] \<or> is_blank (last a)"
    and u: "\<forall>c\<in>set u. \<not> is_quote c \<and> \<not> is_blank c"
    and nul: "NUL \<notin> set (a @ u @ v)"
    and room: "int (length (blank_split a)) < m - 1"
  shows "args_of (parse_args (a @ u @ q # v) argv m) = map Some (blank_split a @ [u @ v])
    \<and> ret (parse_args (a @ u @ q # v) argv m) = int (length (blank_split a)) + 1
    \<and> scan_arg False quote_char front (u @ q # v) = (True, q, front @ u @ v, [])
    \<and> (a = [] \<longrightarrow> buf (parse_args (u @ q # v) argv m) = u @ v @ [NUL]
          \<and> argv_out (parse_args (u @ q # v) argv m) 0 = Some 0)
    \<and> (q = DQUOTE \<and> read_cmdline bytes = pre @ ENTRYPOINT_KEY @ q # v
         \<and> (\<forall>i<length pre. \<not> prefix ENTRYPOINT_KEY (drop i (read_cmdline bytes)))
        \<longrightarrow> read_entrypoint (ReadOk bytes) bufsize = Inl Malformed)"
proof -
  let ?s = "a @ u @ q # v"
  have quote: "is_quote q"
    using q by (simp add: is_quote_def)
  have c: "c_str ?s = ?s"
    using nul q by (intro c_str_id) auto
  have "tokenize_spec ?s = tokenize_spec a @ tokenize_spec (u @ q # v)"
    using a by (rule tokenize_spec_append)
  then have spec: "tokenize_spec ?s = blank_split a @ [u @ v]"
    using tokenize_spec_unquoted [OF a(1)] tokenize_spec_unterminated [OF quote v u] by simp
  have all: "take (nat (m - 1)) (blank_split a @ [u @ v]) = blank_split a @ [u @ v]"
    using room by simp
  have args: "args_of (parse_args ?s argv m) = map Some (blank_split a @ [u @ v])"
    using parse_args_tokens [of ?s argv m] unfolding c spec all .
  have count: "ret (parse_args ?s argv m) = int (length (blank_split a)) + 1"
    using ret_parse_args [of ?s argv m] room unfolding c spec by simp
  have scan: "scan_arg False quote_char front (u @ q # v) = (True, q, front @ u @ v, [])"
    using q v u by (rule scan_arg_unterminated)
  have first: "buf (parse_args (u @ q # v) argv m) = u @ v @ [NUL]
      \<and> argv_out (parse_args (u @ q # v) argv m) 0 = Some 0" if "a = []"
  proof -
    have "blank_split a = []"
      unfolding that by (subst blank_split.simps) simp
    then have "1 < m"
      using room by simp
    moreover have "NUL \<notin> set (u @ v)"
      using nul by simp
    ultimately show ?thesis
      using parse_args_unterminated_first [OF q v u] by simp
  qed
  have malformed: "read_entrypoint (ReadOk bytes) bufsize = Inl Malformed"
    if "q = DQUOTE" "read_cmdline bytes = pre @ ENTRYPOINT_KEY @ q # v"
      "\<forall>i<length pre. \<not> prefix ENTRYPOINT_KEY (drop i (read_cmdline bytes))"
    using read_entrypoint_found [OF that(2,3), of bufsize] v that(1) by simp
  show ?thesis
    using args count scan first malformed by blast
qed

text \<open>The input \<open>echo -n x="a  b c\<close>, the input \<open>x='a  b c\<close>, and a command line
  whose entrypoint is \<open>"a  b c\<close>.\<close>

theorem unterminated_quote_witness:
  "args_of (parse_args (''echo -n '' @ ''x='' @ DQUOTE # ''a  b c'') (\<lambda>i. None) MAX_ARGS)
     = [Some ''echo'', Some ''-n'', Some ''x=a  b c'']
   \<and> ret (parse_args (''echo -n '' @ ''x='' @ DQUOTE # ''a  b c'') (\<lambda>i. None) MAX_ARGS) = 3
   \<and> buf (parse_args (''x='' @ SQUOTE # ''a  b c'') (\<lambda>i. None) MAX_ARGS) = ''x=a  b c'' @ [NUL]
   \<and> read_entrypoint (ReadOk (''ro '' @ ENTRYPOINT_KEY @ DQUOTE # ''a  b c'')) MAX_ENTRYPOINT_LEN
       = Inl Malformed"
proof -
  have words: "blank_split ''echo -n '' = [''echo'', ''-n'']" and none: "blank_split [] = []"
    by (simp_all add: blank_split.simps is_blank_def)
  have cl: "read_cmdline (''ro '' @ ENTRYPOINT_KEY @ DQUOTE # ''a  b c'')
      = ''ro '' @ ENTRYPOINT_KEY @ DQUOTE # ''a  b c''"
    by (simp add: read_cmdline_def c_str_def MAX_CMDLINE_LEN_def ENTRYPOINT_KEY_def)
  have first: "\<forall>i<length ''ro ''. \<not> prefix ENTRYPOINT_KEY
      (drop i (read_cmdline (''ro '' @ ENTRYPOINT_KEY @ DQUOTE # ''a  b c'')))"
    unfolding cl by (simp add: ENTRYPOINT_KEY_def All_less_Suc)
  have one: "args_of (parse_args (''echo -n '' @ ''x='' @ DQUOTE # ''a  b c'') (\<lambda>i. None) MAX_ARGS)
       = map Some (blank_split ''echo -n '' @ [''x='' @ ''a  b c''])
     \<and> ret (parse_args (''echo -n '' @ ''x='' @ DQUOTE # ''a  b c'') (\<lambda>i. None) MAX_ARGS)
       = int (length (blank_split ''echo -n '')) + 1
     \<and> read_entrypoint (ReadOk (''ro '' @ ENTRYPOINT_KEY @ DQUOTE # ''a  b c'')) MAX_ENTRYPOINT_LEN
       = Inl Malformed"
    using unterminated_quote [where q = DQUOTE and v = "''a  b c''" and a = "''echo -n ''"
        and u = "''x=''" and m = MAX_ARGS and argv = "\<lambda>i. None"
        and bytes = "''ro '' @ ENTRYPOINT_KEY @ DQUOTE # ''a  b c''" and pre = "''ro ''"
        and bufsize = MAX_ENTRYPOINT_LEN] cl first
    by (simp add: is_quote_def is_blank_def words MAX_ARGS_def)
  have two: "buf (parse_args (''x='' @ SQUOTE # ''a  b c'') (\<lambda>i. None) MAX_ARGS)
       = ''x='' @ ''a  b c'' @ [NUL]"
    using unterminated_quote [where q = SQUOTE and v = "''a  b c''" and a = "[]"
        and u = "''x=''" and m = MAX_ARGS and argv = "\<lambda>i. None"]
    by (simp add: is_quote_def is_blank_def none MAX_ARGS_def)
  show ?thesis
    using one two by (simp add: words)
qed

end
